theory Spec2Isabelle
  imports Main "HOL-Library.Sublist"
begin

section \<open>Errors (hystrix.go, lines 12-29)\<close>

text \<open>
  Go's \<open>error\<close> interface is modelled by the kinds of error value the file can meet:
  the package's own \<open>CircuitError\<close>; an error that is known only by the text its
  \<open>Error()\<close> method gives (that is also what \<open>fmt.Errorf\<close> builds); and an error that
  also implements \<open>fmt.Formatter\<close>, known by the text of \<open>Error()\<close> and by what the
  verb \<open>%v\<close> prints for it.  A \<open>nil\<close> error is \<open>None\<close> of \<open>error option\<close>.
\<close>

datatype error = CircuitError string | ErrorString string | Formatter string string

fun Error :: "error \<Rightarrow> string" where
  "Error (CircuitError Message) = ''hystrix: '' @ Message"
| "Error (ErrorString text) = text"
| "Error (Formatter text formatted) = text"

text \<open>
  What \<open>fmt\<close> prints for an error under the verb \<open>%v\<close>: the output of its \<open>Format\<close>
  method when it has one, the text of \<open>Error()\<close> otherwise.
\<close>

fun verb_v :: "error \<Rightarrow> string" where
  "verb_v (Formatter text formatted) = formatted"
| "verb_v err = Error err"

definition ErrMaxConcurrency :: error where
  "ErrMaxConcurrency = CircuitError ''max concurrency''"

definition ErrCircuitOpen :: error where
  "ErrCircuitOpen = CircuitError ''circuit open''"

definition ErrTimeout :: error where
  "ErrTimeout = CircuitError ''timeout''"

text \<open>
  Line 209: \<open>fmt.Errorf("fallback failed with '%v'. run error was '%v'", fallbackErr, err)\<close>.
\<close>

definition fallback_failed :: "error \<Rightarrow> error \<Rightarrow> error" where
  "fallback_failed fallbackErr err =
     ErrorString (''fallback failed with '' @ [CHR 0x27] @ verb_v fallbackErr @ [CHR 0x27]
                  @ ''. run error was '' @ [CHR 0x27] @ verb_v err @ [CHR 0x27])"

section \<open>One call of Go: inputs and shared state\<close>

text \<open>
  What one call of \<open>Go\<close> receives from outside the file.  \<open>GetCircuit\<close>, the circuit's
  \<open>AllowRequest\<close>, its \<open>ReportEvent\<close> and its \<open>executorPool\<close> are declared elsewhere in the
  package; the call sees them only through the values below.
  \<^item> \<open>GetCircuit\<close>: the error returned by \<open>GetCircuit(name)\<close> (line 52), \<open>None\<close> for \<open>nil\<close>;
  \<^item> \<open>AllowRequest\<close>: the answer of \<open>circuit.AllowRequest()\<close> (line 64);
  \<^item> \<open>Tickets\<close>: how many tickets \<open>circuit.executorPool.Tickets\<close> holds when the call starts;
  \<^item> \<open>run\<close>: what the wrapped operation returns;
  \<^item> \<open>fallback\<close>: the fallback, \<open>None\<close> for a \<open>nil\<close> function;
  \<^item> \<open>via_Do\<close>: the call came through \<open>Do\<close>, so \<open>run\<close> and \<open>fallback\<close> are wrapped in
    \<open>Do\<close>'s closures \<open>r\<close> and \<open>f\<close> (lines 159-177), which signal \<open>done\<close> on success.
\<close>

record call =
  GetCircuit :: "error option"
  AllowRequest :: bool
  Tickets :: nat
  run :: "error option"
  fallback :: "(error \<Rightarrow> error option) option"
  via_Do :: bool

type_synonym ticket = unit

datatype once = Fresh | Busy | Completed

text \<open>Where \<open>tryFallback\<close> (lines 194-223) stands.\<close>

datatype fpc =
    F_Once
  | F_Call
  | F_Do_done
  | F_Report "error option"
  | F_Return "error option"

text \<open>The three places where the worker resolves through \<open>tryFallback\<close> (lines 73, 92, 112).\<close>

datatype site = Short_circuit | Rejected | Failure error

text \<open>Where the worker goroutine (lines 58-120) stands.\<close>

datatype wpc =
    W_AllowRequest
  | W_Lock_open
  | W_IfStop_open
  | W_SetStop_open
  | W_LockTicket
  | W_Select
  | W_UnlockTicket bool
  | W_Run
  | W_Running
  | W_Do_done
  | W_Lock "error option"
  | W_IfStop "error option"
  | W_SetStop "error option"
  | W_Report site
  | W_tryFallback site fpc
  | W_Send site error
  | W_Success
  | W_Unlock
  | W_Finished
  | W_Exit

text \<open>Where the deadline goroutine (lines 122-149) stands.\<close>

datatype dpc =
    D_NewTimer
  | D_Select
  | D_Lock
  | D_IfStop
  | D_SetStop
  | D_Report
  | D_tryFallback fpc
  | D_Send error
  | D_Unlock
  | D_LockTicket
  | D_Return
  | D_UnlockTicket
  | D_Exit

text \<open>
  The variables of one call (lines 37-46), the \<open>done\<close> channel of \<open>Do\<close> (line 157), what
  the circuit has been told, and where each activity stands.
  \<^item> \<open>stopMutex\<close>, \<open>ticketMutex\<close>: \<open>True\<close> while locked;
  \<^item> \<open>errChan\<close>, \<open>finished\<close>: the contents of the buffered channels (capacity 1);
  \<^item> \<open>doneChan\<close>: how many values \<open>done\<close> holds (capacity 1);
  \<^item> \<open>events\<close>: the event kinds passed to \<open>circuit.ReportEvent\<close>, in order;
  \<^item> \<open>pool\<close>: how many tickets \<open>executorPool.Tickets\<close> holds;
  \<^item> \<open>returned\<close>: the arguments of the calls of \<open>executorPool.Return\<close>, in order;
  \<^item> \<open>runs\<close>: how often the wrapped operation was started;
  \<^item> \<open>resolved\<close>: the errors for which the body of \<open>once.Do\<close> was run (line 199), in
    order;
  \<^item> \<open>fallback_calls\<close>: the arguments the fallback was called with, in order;
  \<^item> \<open>received\<close>: what the caller has taken: \<open>Some None\<close> from \<open>done\<close> (\<open>Do\<close> returns
    \<open>nil\<close>), \<open>Some (Some e)\<close> the error \<open>e\<close> from \<open>errChan\<close>, \<open>None\<close> nothing yet.
\<close>

record state =
  stop :: bool
  stopMutex :: bool
  ticket :: "ticket option"
  ticketMutex :: bool
  errChan :: "error list"
  finished :: "bool list"
  fallbackOnce :: once
  doneChan :: nat
  events :: "string list"
  pool :: nat
  returned :: "ticket option list"
  runs :: nat
  resolved :: "error list"
  fallback_calls :: "error list"
  wpc :: wpc
  dpc :: dpc
  received :: "error option option"

text \<open>
  Modelled from the spec: \<open>circuit.ReportEvent\<close> is declared outside this file; the
  specification says it records the event into the window.  The model keeps the event
  kinds in the order reported (start time and duration are not kept).
\<close>

definition ReportEvent :: "string \<Rightarrow> state \<Rightarrow> state" where
  "ReportEvent eventType s = s\<lparr>events := events s @ [eventType]\<rparr>"

text \<open>
  Modelled from the spec: \<open>executorPool.Return\<close> is declared outside this file; the
  specification says it returns a token to the pool.  The model logs the argument and
  puts a ticket that is not \<open>nil\<close> back.
\<close>

definition Return :: "ticket option \<Rightarrow> state \<Rightarrow> state" where
  "Return t s = s\<lparr>returned := returned s @ [t],
                   pool := (case t of None \<Rightarrow> pool s | Some _ \<Rightarrow> pool s + 1)\<rparr>"

section \<open>tryFallback (lines 194-223)\<close>

text \<open>
  One step of \<open>tryFallback(once, circuit, start, runDuration, fallback, err)\<close>; \<open>None\<close>
  when the step has to wait.  The result is the next place in the function (\<open>Inl\<close>) or
  the value the function returns (\<open>Inr\<close>).
  \<^item> \<open>F_Once\<close>, line 198: \<open>once.Do\<close> runs its argument only for the first caller, makes a
    caller that arrives while it runs wait, and does nothing afterwards (then \<open>ran\<close> stays
    false and line 219 makes the result \<open>nil\<close>);
  \<^item> \<open>F_Call\<close>, lines 200-206: without a fallback the result is \<open>err\<close>; otherwise the
    fallback is called;
  \<^item> \<open>F_Do_done\<close>, line 175: \<open>Do\<close>'s closure \<open>f\<close> signals \<open>done\<close> when the fallback
    returned \<open>nil\<close>;
  \<^item> \<open>F_Report\<close>, lines 207-215;
  \<^item> \<open>F_Return\<close>: \<open>once.Do\<close> is left, line 222 returns.
\<close>

fun tryFallback :: "call \<Rightarrow> error \<Rightarrow> fpc \<Rightarrow> state \<Rightarrow> ((fpc + error option) \<times> state) option" where
  "tryFallback c err F_Once s =
     (case fallbackOnce s of
        Fresh \<Rightarrow> Some (Inl F_Call, s\<lparr>fallbackOnce := Busy, resolved := resolved s @ [err]\<rparr>)
      | Busy \<Rightarrow> None
      | Completed \<Rightarrow> Some (Inr None, s))"
| "tryFallback c err F_Call s =
     (case fallback c of
        None \<Rightarrow> Some (Inl (F_Return (Some err)), s)
      | Some f \<Rightarrow>
          (case f err of
             Some fallbackErr \<Rightarrow>
               Some (Inl (F_Report (Some fallbackErr)), s\<lparr>fallback_calls := fallback_calls s @ [err]\<rparr>)
           | None \<Rightarrow>
               Some (Inl (if via_Do c then F_Do_done else F_Report None),
                     s\<lparr>fallback_calls := fallback_calls s @ [err]\<rparr>)))"
| "tryFallback c err F_Do_done s =
     (if doneChan s < 1 then Some (Inl (F_Report None), s\<lparr>doneChan := doneChan s + 1\<rparr>) else None)"
| "tryFallback c err (F_Report fallbackErr) s =
     (case fallbackErr of
        Some e \<Rightarrow>
          Some (Inl (F_Return (Some (fallback_failed e err))), ReportEvent ''fallback-failure'' s)
      | None \<Rightarrow> Some (Inl (F_Return None), ReportEvent ''fallback-success'' s))"
| "tryFallback c err (F_Return v) s = Some (Inr v, s\<lparr>fallbackOnce := Completed\<rparr>)"

section \<open>Go (lines 36-152)\<close>

fun site_event :: "site \<Rightarrow> string" where
  "site_event Short_circuit = ''short-circuit''"
| "site_event Rejected = ''rejected''"
| "site_event (Failure runErr) = ''failure''"

fun site_error :: "site \<Rightarrow> error" where
  "site_error Short_circuit = ErrCircuitOpen"
| "site_error Rejected = ErrMaxConcurrency"
| "site_error (Failure runErr) = runErr"

text \<open>
  Where the worker goes on after \<open>tryFallback\<close> returned \<open>nil\<close>: lines 77 and 96 return
  (line 77 with \<open>stopMutex\<close> still to unlock); after line 112 the function falls through
  to line 119.
\<close>

fun after_fallback :: "site \<Rightarrow> wpc" where
  "after_fallback Short_circuit = W_Unlock"
| "after_fallback Rejected = W_Finished"
| "after_fallback (Failure runErr) = W_Success"

text \<open>Where the worker goes on after \<open>errChan <- err\<close>: lines 77, 96 and 115 all return.\<close>

fun after_send :: "site \<Rightarrow> wpc" where
  "after_send Short_circuit = W_Unlock"
| "after_send Rejected = W_Finished"
| "after_send (Failure runErr) = W_Unlock"

text \<open>One step of the worker goroutine; \<open>None\<close> when it has to wait or has ended.\<close>

fun worker :: "call \<Rightarrow> wpc \<Rightarrow> state \<Rightarrow> state option" where
  "worker c W_AllowRequest s =
     Some (s\<lparr>wpc := (if AllowRequest c then W_LockTicket else W_Lock_open)\<rparr>)"
| "worker c W_Lock_open s =
     (if stopMutex s then None else Some (s\<lparr>stopMutex := True, wpc := W_IfStop_open\<rparr>))"
| "worker c W_IfStop_open s =
     Some (s\<lparr>wpc := (if stop s then W_Unlock else W_SetStop_open)\<rparr>)"
| "worker c W_SetStop_open s = Some (s\<lparr>stop := True, wpc := W_Report Short_circuit\<rparr>)"
| "worker c W_LockTicket s =
     (if ticketMutex s then None else Some (s\<lparr>ticketMutex := True, wpc := W_Select\<rparr>))"
| "worker c W_Select s =
     (if 0 < pool s then Some (s\<lparr>ticket := Some (), pool := pool s - 1, wpc := W_UnlockTicket True\<rparr>)
      else Some (s\<lparr>wpc := W_UnlockTicket False\<rparr>))"
| "worker c (W_UnlockTicket got) s =
     Some (s\<lparr>ticketMutex := False, wpc := (if got then W_Run else W_Report Rejected)\<rparr>)"
| "worker c W_Run s = Some (s\<lparr>runs := runs s + 1, wpc := W_Running\<rparr>)"
| "worker c W_Running s =
     Some (s\<lparr>wpc := (if via_Do c \<and> run c = None then W_Do_done else W_Lock (run c))\<rparr>)"
| "worker c W_Do_done s =
     (if doneChan s < 1 then Some (s\<lparr>doneChan := doneChan s + 1, wpc := W_Lock None\<rparr>) else None)"
| "worker c (W_Lock runErr) s =
     (if stopMutex s then None else Some (s\<lparr>stopMutex := True, wpc := W_IfStop runErr\<rparr>))"
| "worker c (W_IfStop runErr) s =
     Some (s\<lparr>wpc := (if stop s then W_Unlock else W_SetStop runErr)\<rparr>)"
| "worker c (W_SetStop runErr) s =
     Some (s\<lparr>stop := True,
             wpc := (case runErr of Some e \<Rightarrow> W_Report (Failure e) | None \<Rightarrow> W_Success)\<rparr>)"
| "worker c (W_Report x) s =
     Some ((ReportEvent (site_event x) s)\<lparr>wpc := W_tryFallback x F_Once\<rparr>)"
| "worker c (W_tryFallback x p) s =
     (case tryFallback c (site_error x) p s of
        None \<Rightarrow> None
      | Some (Inl p', s') \<Rightarrow> Some (s'\<lparr>wpc := W_tryFallback x p'\<rparr>)
      | Some (Inr (Some err), s') \<Rightarrow> Some (s'\<lparr>wpc := W_Send x err\<rparr>)
      | Some (Inr None, s') \<Rightarrow> Some (s'\<lparr>wpc := after_fallback x\<rparr>))"
| "worker c (W_Send x err) s =
     (if length (errChan s) < 1 then Some (s\<lparr>errChan := errChan s @ [err], wpc := after_send x\<rparr>)
      else None)"
| "worker c W_Success s = Some ((ReportEvent ''success'' s)\<lparr>wpc := W_Unlock\<rparr>)"
| "worker c W_Unlock s = Some (s\<lparr>stopMutex := False, wpc := W_Finished\<rparr>)"
| "worker c W_Finished s =
     (if length (finished s) < 1 then Some (s\<lparr>finished := finished s @ [True], wpc := W_Exit\<rparr>)
      else None)"
| "worker c W_Exit s = None"

text \<open>
  One step of the deadline goroutine.  At the \<open>select\<close> of line 132 the argument
  \<open>timer\<close> says which case is taken: \<open><-timer.C\<close> (the timer has fired) or \<open><-finished\<close>
  (which has to hold a value).  The deferred calls run in reverse order: unlocking
  \<open>stopMutex\<close> (line 136), \<open>timer.Stop\<close> (line 130, no effect on the state), then the
  return of the ticket (lines 124-126).
\<close>

fun deadline :: "call \<Rightarrow> bool \<Rightarrow> dpc \<Rightarrow> state \<Rightarrow> state option" where
  "deadline c timer D_NewTimer s = (if timer then None else Some (s\<lparr>dpc := D_Select\<rparr>))"
| "deadline c timer D_Select s =
     (if timer then Some (s\<lparr>dpc := D_Lock\<rparr>)
      else (case finished s of
              [] \<Rightarrow> None
            | b # bs \<Rightarrow> Some (s\<lparr>finished := bs, dpc := D_LockTicket\<rparr>)))"
| "deadline c True p s = None"
| "deadline c False D_Lock s =
     (if stopMutex s then None else Some (s\<lparr>stopMutex := True, dpc := D_IfStop\<rparr>))"
| "deadline c False D_IfStop s = Some (s\<lparr>dpc := (if \<not> stop s then D_SetStop else D_Unlock)\<rparr>)"
| "deadline c False D_SetStop s = Some (s\<lparr>stop := True, dpc := D_Report\<rparr>)"
| "deadline c False D_Report s = Some ((ReportEvent ''timeout'' s)\<lparr>dpc := D_tryFallback F_Once\<rparr>)"
| "deadline c False (D_tryFallback p) s =
     (case tryFallback c ErrTimeout p s of
        None \<Rightarrow> None
      | Some (Inl p', s') \<Rightarrow> Some (s'\<lparr>dpc := D_tryFallback p'\<rparr>)
      | Some (Inr (Some err), s') \<Rightarrow> Some (s'\<lparr>dpc := D_Send err\<rparr>)
      | Some (Inr None, s') \<Rightarrow> Some (s'\<lparr>dpc := D_Unlock\<rparr>))"
| "deadline c False (D_Send err) s =
     (if length (errChan s) < 1 then Some (s\<lparr>errChan := errChan s @ [err], dpc := D_Unlock\<rparr>)
      else None)"
| "deadline c False D_Unlock s = Some (s\<lparr>stopMutex := False, dpc := D_LockTicket\<rparr>)"
| "deadline c False D_LockTicket s =
     (if ticketMutex s then None else Some (s\<lparr>ticketMutex := True, dpc := D_Return\<rparr>))"
| "deadline c False D_Return s = Some ((Return (ticket s) s)\<lparr>dpc := D_UnlockTicket\<rparr>)"
| "deadline c False D_UnlockTicket s = Some (s\<lparr>ticketMutex := False, dpc := D_Exit\<rparr>)"
| "deadline c False D_Exit s = None"

text \<open>
  The state in which \<open>Go\<close> returns \<open>errChan\<close> (lines 37-56, 151).  When \<open>GetCircuit\<close>
  fails the error is put on \<open>errChan\<close> and no goroutine is started: both activities are
  at their end.
\<close>

definition Go :: "call \<Rightarrow> state" where
  "Go c =
     (let s = \<lparr>stop = False, stopMutex = False, ticket = None, ticketMutex = False,
               errChan = [], finished = [], fallbackOnce = Fresh, doneChan = 0,
               events = [], pool = Tickets c, returned = [], runs = 0, resolved = [],
               fallback_calls = [],
               wpc = W_AllowRequest, dpc = D_NewTimer, received = None\<rparr>
      in case GetCircuit c of
           Some err \<Rightarrow> s\<lparr>errChan := [err], wpc := W_Exit, dpc := D_Exit\<rparr>
         | None \<Rightarrow> s)"

section \<open>Do (lines 156-192) and the interleaving of the activities\<close>

text \<open>
  What may happen next: a step of the worker, a step of the deadline goroutine, the
  timer firing while the deadline goroutine waits in its \<open>select\<close>, and the two cases of
  the caller's \<open>select\<close> in \<open>Do\<close> (lines 186-191).  A caller of \<open>Go\<close> has only \<open>errChan\<close>
  to read.
\<close>

datatype action = Worker | Deadline | Timer | Recv_done | Recv_err

fun step :: "call \<Rightarrow> action \<Rightarrow> state \<Rightarrow> state option" where
  "step c Worker s = worker c (wpc s) s"
| "step c Deadline s = deadline c False (dpc s) s"
| "step c Timer s = deadline c True (dpc s) s"
| "step c Recv_done s =
     (if via_Do c \<and> received s = None \<and> 0 < doneChan s
      then Some (s\<lparr>doneChan := doneChan s - 1, received := Some None\<rparr>) else None)"
| "step c Recv_err s =
     (case errChan s of
        [] \<Rightarrow> None
      | err # errs \<Rightarrow>
          (if received s = None then Some (s\<lparr>errChan := errs, received := Some (Some err)\<rparr>)
           else None))"

text \<open>
  An interleaving is a list of actions; \<open>exec\<close> runs it and is \<open>None\<close> when it asks for
  a step that cannot be taken.
\<close>

fun exec :: "call \<Rightarrow> action list \<Rightarrow> state \<Rightarrow> state option" where
  "exec c [] s = Some s"
| "exec c (a # as) s = (case step c a s of None \<Rightarrow> None | Some s' \<Rightarrow> exec c as s')"

text \<open>
  \<open>Do\<close> (lines 156-192) calls \<open>Go\<close> with its closures \<open>r\<close> and \<open>f\<close> and waits in its
  \<open>select\<close>.  \<open>Do c sched\<close> is the state after the interleaving \<open>sched\<close>; in it \<open>Do\<close> has
  returned \<open>r\<close> when \<open>received\<close> is \<open>Some r\<close>, and still waits when it is \<open>None\<close>.
\<close>

definition Do :: "call \<Rightarrow> action list \<Rightarrow> state option" where
  "Do c sched = exec (c\<lparr>via_Do := True\<rparr>) sched (Go (c\<lparr>via_Do := True\<rparr>))"

section \<open>Invariants of the interleaved execution\<close>

subsection \<open>Who holds which lock\<close>

text \<open>The rejected path (lines 89-96) resolves without taking \<open>stopMutex\<close>.\<close>

fun guarded :: "site \<Rightarrow> bool" where
  "guarded Short_circuit = True"
| "guarded Rejected = False"
| "guarded (Failure runErr) = True"

text \<open>The worker holds \<open>stopMutex\<close> (between lines 65 or 103 and the deferred unlock).\<close>

fun w_locked :: "wpc \<Rightarrow> bool" where
  "w_locked W_IfStop_open = True"
| "w_locked W_SetStop_open = True"
| "w_locked (W_IfStop runErr) = True"
| "w_locked (W_SetStop runErr) = True"
| "w_locked (W_Report x) = guarded x"
| "w_locked (W_tryFallback x p) = guarded x"
| "w_locked (W_Send x err) = guarded x"
| "w_locked W_Success = True"
| "w_locked W_Unlock = True"
| "w_locked _ = False"

text \<open>The deadline goroutine holds \<open>stopMutex\<close> (between line 135 and the deferred unlock).\<close>

fun d_locked :: "dpc \<Rightarrow> bool" where
  "d_locked D_IfStop = True"
| "d_locked D_SetStop = True"
| "d_locked D_Report = True"
| "d_locked (D_tryFallback p) = True"
| "d_locked (D_Send err) = True"
| "d_locked D_Unlock = True"
| "d_locked _ = False"

fun w_ticket_locked :: "wpc \<Rightarrow> bool" where
  "w_ticket_locked W_Select = True"
| "w_ticket_locked (W_UnlockTicket got) = True"
| "w_ticket_locked _ = False"

fun d_ticket_locked :: "dpc \<Rightarrow> bool" where
  "d_ticket_locked D_Return = True"
| "d_ticket_locked D_UnlockTicket = True"
| "d_ticket_locked _ = False"

text \<open>Inside the function passed to \<open>once.Do\<close> (lines 198-216).\<close>

fun in_body :: "fpc \<Rightarrow> bool" where
  "in_body F_Once = False"
| "in_body _ = True"

fun w_in_once :: "wpc \<Rightarrow> bool" where
  "w_in_once (W_tryFallback x p) = in_body p"
| "w_in_once _ = False"

fun d_in_once :: "dpc \<Rightarrow> bool" where
  "d_in_once (D_tryFallback p) = in_body p"
| "d_in_once _ = False"

text \<open>
  Each mutex is locked exactly while one activity is inside the section it protects,
  and \<open>fallbackOnce\<close> is busy exactly while one activity is inside its body.
\<close>

definition locks :: "state \<Rightarrow> bool" where
  "locks s \<longleftrightarrow>
     stopMutex s = (w_locked (wpc s) \<or> d_locked (dpc s))
   \<and> \<not> (w_locked (wpc s) \<and> d_locked (dpc s))
   \<and> ticketMutex s = (w_ticket_locked (wpc s) \<or> d_ticket_locked (dpc s))
   \<and> \<not> (w_ticket_locked (wpc s) \<and> d_ticket_locked (dpc s))
   \<and> (fallbackOnce s = Busy) = (w_in_once (wpc s) \<or> d_in_once (dpc s))
   \<and> \<not> (w_in_once (wpc s) \<and> d_in_once (dpc s))"

subsection \<open>The stop flag decides one winner\<close>

text \<open>The worker has found \<open>stop\<close> false (lines 67, 105) and is resolving.\<close>

fun w_chosen :: "wpc \<Rightarrow> bool" where
  "w_chosen W_SetStop_open = True"
| "w_chosen (W_SetStop runErr) = True"
| "w_chosen (W_Report x) = guarded x"
| "w_chosen (W_tryFallback x p) = guarded x"
| "w_chosen (W_Send x err) = guarded x"
| "w_chosen W_Success = True"
| "w_chosen _ = False"

fun w_setting :: "wpc \<Rightarrow> bool" where
  "w_setting W_SetStop_open = True"
| "w_setting (W_SetStop runErr) = True"
| "w_setting _ = False"

text \<open>The worker is past its resolution (deferred calls of lines 66/104 and 59).\<close>

fun w_after :: "wpc \<Rightarrow> bool" where
  "w_after W_Unlock = True"
| "w_after W_Finished = True"
| "w_after W_Exit = True"
| "w_after _ = False"

text \<open>
  While the worker is inside \<open>tryFallback\<close>, or about to send its result, the event of
  its site has been reported.
\<close>

fun w_site_reported :: "wpc \<Rightarrow> string list \<Rightarrow> bool" where
  "w_site_reported (W_tryFallback x p) es = (site_event x \<in> set es)"
| "w_site_reported (W_Send x err) es = (site_event x \<in> set es)"
| "w_site_reported _ es = True"

text \<open>The deadline goroutine has found \<open>stop\<close> false (line 138) and is resolving.\<close>

fun d_chosen :: "dpc \<Rightarrow> bool" where
  "d_chosen D_SetStop = True"
| "d_chosen D_Report = True"
| "d_chosen (D_tryFallback p) = True"
| "d_chosen (D_Send err) = True"
| "d_chosen _ = False"

fun d_after :: "dpc \<Rightarrow> bool" where
  "d_after D_Unlock = True"
| "d_after D_LockTicket = True"
| "d_after D_Return = True"
| "d_after D_UnlockTicket = True"
| "d_after D_Exit = True"
| "d_after _ = False"

text \<open>The events the worker reports under the stop flag, lines 72, 111 and 119.\<close>

definition w_reported :: "string list \<Rightarrow> bool" where
  "w_reported es \<longleftrightarrow> ''short-circuit'' \<in> set es \<or> ''failure'' \<in> set es \<or> ''success'' \<in> set es"

text \<open>The event the deadline goroutine reports under the stop flag, line 141.\<close>

definition d_reported :: "string list \<Rightarrow> bool" where
  "d_reported es \<longleftrightarrow> ''timeout'' \<in> set es"

text \<open>
  At most one of the two activities gets past the test of \<open>stop\<close>, only that one reports
  under the flag, and \<open>stop\<close> is set exactly when one of them has got past and set it.
\<close>

definition guard :: "state \<Rightarrow> bool" where
  "guard s \<longleftrightarrow>
     (w_reported (events s) \<longrightarrow> w_chosen (wpc s) \<or> w_after (wpc s))
   \<and> (d_reported (events s) \<longrightarrow> d_chosen (dpc s) \<or> d_after (dpc s))
   \<and> \<not> ((w_chosen (wpc s) \<or> w_reported (events s)) \<and> (d_chosen (dpc s) \<or> d_reported (events s)))
   \<and> stop s = (((w_chosen (wpc s) \<or> w_reported (events s)) \<and> \<not> w_setting (wpc s))
               \<or> ((d_chosen (dpc s) \<or> d_reported (events s)) \<and> dpc s \<noteq> D_SetStop))
   \<and> w_site_reported (wpc s) (events s)
   \<and> (d_chosen (dpc s) \<and> dpc s \<noteq> D_SetStop \<and> dpc s \<noteq> D_Report \<longrightarrow> d_reported (events s))"

subsection \<open>The path of the worker follows from the inputs\<close>

text \<open>Which resolution site the inputs lead the worker to.\<close>

fun on_site :: "call \<Rightarrow> site \<Rightarrow> bool" where
  "on_site c Short_circuit = (\<not> AllowRequest c)"
| "on_site c Rejected = (AllowRequest c \<and> Tickets c = 0)"
| "on_site c (Failure runErr) = (AllowRequest c \<and> 0 < Tickets c \<and> run c = Some runErr)"

fun w_path :: "call \<Rightarrow> wpc \<Rightarrow> bool" where
  "w_path c W_AllowRequest = True"
| "w_path c W_Lock_open = (\<not> AllowRequest c)"
| "w_path c W_IfStop_open = (\<not> AllowRequest c)"
| "w_path c W_SetStop_open = (\<not> AllowRequest c)"
| "w_path c W_LockTicket = AllowRequest c"
| "w_path c W_Select = AllowRequest c"
| "w_path c (W_UnlockTicket got) = (AllowRequest c \<and> got = (0 < Tickets c))"
| "w_path c W_Run = (AllowRequest c \<and> 0 < Tickets c)"
| "w_path c W_Running = (AllowRequest c \<and> 0 < Tickets c)"
| "w_path c W_Do_done = (AllowRequest c \<and> 0 < Tickets c \<and> via_Do c \<and> run c = None)"
| "w_path c (W_Lock runErr) = (AllowRequest c \<and> 0 < Tickets c \<and> run c = runErr)"
| "w_path c (W_IfStop runErr) = (AllowRequest c \<and> 0 < Tickets c \<and> run c = runErr)"
| "w_path c (W_SetStop runErr) = (AllowRequest c \<and> 0 < Tickets c \<and> run c = runErr)"
| "w_path c (W_Report x) = on_site c x"
| "w_path c (W_tryFallback x p) = on_site c x"
| "w_path c (W_Send x err) = on_site c x"
| "w_path c W_Success = (AllowRequest c \<and> 0 < Tickets c)"
| "w_path c W_Unlock = (AllowRequest c \<longrightarrow> 0 < Tickets c)"
| "w_path c W_Finished = True"
| "w_path c W_Exit = True"

text \<open>The worker is past the \<open>select\<close> of line 86.\<close>

fun w_past_select :: "wpc \<Rightarrow> bool" where
  "w_past_select W_AllowRequest = False"
| "w_past_select W_LockTicket = False"
| "w_past_select W_Select = False"
| "w_past_select _ = True"

text \<open>The worker is past the call of \<open>run\<close> in line 100.\<close>

fun w_started :: "wpc \<Rightarrow> bool" where
  "w_started W_AllowRequest = False"
| "w_started W_LockTicket = False"
| "w_started W_Select = False"
| "w_started (W_UnlockTicket got) = False"
| "w_started W_Run = False"
| "w_started _ = True"

text \<open>The deadline goroutine is past the call of \<open>executorPool.Return\<close> in line 125.\<close>

fun d_returned :: "dpc \<Rightarrow> bool" where
  "d_returned D_UnlockTicket = True"
| "d_returned D_Exit = True"
| "d_returned _ = False"

text \<open>
  The worker is on the path its inputs lead to; it holds a ticket exactly when it is past
  a \<open>select\<close> that found one; the pool misses exactly the ticket that is held and has
  not been returned.
\<close>

definition tickets_inv :: "call \<Rightarrow> state \<Rightarrow> bool" where
  "tickets_inv c s \<longleftrightarrow>
     w_path c (wpc s)
   \<and> ticket s = (if AllowRequest c \<and> 0 < Tickets c \<and> w_past_select (wpc s) then Some () else None)
   \<and> (Some () \<in> set (returned s) \<longrightarrow> ticket s = Some ())
   \<and> pool s + (if ticket s = Some () \<and> Some () \<notin> set (returned s) then 1 else 0) = Tickets c"

definition runs_inv :: "call \<Rightarrow> state \<Rightarrow> bool" where
  "runs_inv c s \<longleftrightarrow>
     runs s = (if AllowRequest c \<and> 0 < Tickets c \<and> w_started (wpc s) then 1 else 0)"

definition returned_inv :: "state \<Rightarrow> bool" where
  "returned_inv s \<longleftrightarrow> length (returned s) = (if d_returned (dpc s) then 1 else 0)"

text \<open>Which inputs an event of the worker tells of.\<close>

definition path_event :: "call \<Rightarrow> string \<Rightarrow> bool" where
  "path_event c e \<longleftrightarrow>
     (e = ''short-circuit'' \<longrightarrow> \<not> AllowRequest c)
   \<and> (e = ''rejected'' \<longrightarrow> AllowRequest c \<and> Tickets c = 0)
   \<and> (e = ''failure'' \<longrightarrow> AllowRequest c \<and> 0 < Tickets c \<and> run c \<noteq> None)
   \<and> (e = ''success'' \<longrightarrow> AllowRequest c \<and> 0 < Tickets c)"

definition events_inv :: "call \<Rightarrow> state \<Rightarrow> bool" where
  "events_inv c s \<longleftrightarrow> list_all (path_event c) (events s)"

text \<open>
  A worker that has ended on the rejected path has reported \<open>rejected\<close>; one that has
  ended on the short-circuit path has reported \<open>short-circuit\<close>, unless the deadline
  goroutine had set \<open>stop\<close> before (line 67), which then has reported \<open>timeout\<close>.
\<close>

definition exits_inv :: "call \<Rightarrow> state \<Rightarrow> bool" where
  "exits_inv c s \<longleftrightarrow>
     ((wpc s = W_Finished \<or> wpc s = W_Exit) \<and> AllowRequest c \<and> Tickets c = 0
        \<longrightarrow> ''rejected'' \<in> set (events s))
   \<and> (w_after (wpc s) \<and> \<not> AllowRequest c
        \<longrightarrow> ''short-circuit'' \<in> set (events s) \<or> ''timeout'' \<in> set (events s))"

subsection \<open>The once guard and the values on their way to the caller\<close>

text \<open>What the first run of the body of \<open>once.Do\<close> delivers for the error \<open>err\<close> (lines 200-215).\<close>

definition resolution :: "call \<Rightarrow> error \<Rightarrow> error option" where
  "resolution c err =
     (case fallback c of
        None \<Rightarrow> Some err
      | Some f \<Rightarrow> (case f err of None \<Rightarrow> None | Some fallbackErr \<Rightarrow> Some (fallback_failed fallbackErr err)))"

definition fb_free :: "string list \<Rightarrow> bool" where
  "fb_free es \<longleftrightarrow> ''fallback-success'' \<notin> set es \<and> ''fallback-failure'' \<notin> set es"

text \<open>What the body of \<open>once.Do\<close> has left behind once it has run for \<open>err\<close>.\<close>

definition settled :: "call \<Rightarrow> error list \<Rightarrow> string list \<Rightarrow> error \<Rightarrow> bool" where
  "settled c calls es err =
     (case fallback c of
        None \<Rightarrow> calls = [] \<and> fb_free es
      | Some f \<Rightarrow>
          calls = [err]
          \<and> (case f err of
               None \<Rightarrow> ''fallback-success'' \<in> set es \<and> ''fallback-failure'' \<notin> set es
             | Some fallbackErr \<Rightarrow> ''fallback-failure'' \<in> set es \<and> ''fallback-success'' \<notin> set es))"

text \<open>What holds while an activity stands at place \<open>p\<close> of \<open>tryFallback\<close> called with \<open>err\<close>.\<close>

fun frame_ok :: "call \<Rightarrow> error \<Rightarrow> fpc \<Rightarrow> error list \<Rightarrow> error list \<Rightarrow> string list \<Rightarrow> bool" where
  "frame_ok c err F_Once rs calls es = True"
| "frame_ok c err F_Call rs calls es = (rs = [err] \<and> calls = [] \<and> fb_free es)"
| "frame_ok c err F_Do_done rs calls es =
     (rs = [err] \<and> calls = [err] \<and> fb_free es \<and> via_Do c
      \<and> (case fallback c of None \<Rightarrow> False | Some f \<Rightarrow> f err = None))"
| "frame_ok c err (F_Report fallbackErr) rs calls es =
     (rs = [err] \<and> calls = [err] \<and> fb_free es
      \<and> (case fallback c of None \<Rightarrow> False | Some f \<Rightarrow> f err = fallbackErr))"
| "frame_ok c err (F_Return v) rs calls es =
     (rs = [err] \<and> v = resolution c err \<and> settled c calls es err)"

fun w_frame_ok :: "call \<Rightarrow> wpc \<Rightarrow> error list \<Rightarrow> error list \<Rightarrow> string list \<Rightarrow> bool" where
  "w_frame_ok c (W_tryFallback x p) rs calls es = frame_ok c (site_error x) p rs calls es"
| "w_frame_ok c _ rs calls es = True"

fun d_frame_ok :: "call \<Rightarrow> dpc \<Rightarrow> error list \<Rightarrow> error list \<Rightarrow> string list \<Rightarrow> bool" where
  "d_frame_ok c (D_tryFallback p) rs calls es = frame_ok c ErrTimeout p rs calls es"
| "d_frame_ok c _ rs calls es = True"

fun w_sending :: "wpc \<Rightarrow> error option" where
  "w_sending (W_Send x err) = Some err"
| "w_sending _ = None"

fun d_sending :: "dpc \<Rightarrow> error option" where
  "d_sending (D_Send err) = Some err"
| "d_sending _ = None"

fun got_error :: "error option option \<Rightarrow> error option" where
  "got_error (Some (Some err)) = Some err"
| "got_error _ = None"

fun cnt :: "'a option \<Rightarrow> nat" where
  "cnt None = 0"
| "cnt (Some x) = 1"

text \<open>How many error values are on their way to the caller or have reached it.\<close>

definition in_flight :: "state \<Rightarrow> nat" where
  "in_flight s = length (errChan s) + cnt (got_error (received s))
                 + cnt (w_sending (wpc s)) + cnt (d_sending (dpc s))"

definition carried :: "state \<Rightarrow> error set" where
  "carried s = set (errChan s) \<union> set_option (got_error (received s))
               \<union> set_option (w_sending (wpc s)) \<union> set_option (d_sending (dpc s))"

text \<open>
  The once guard: before its body has run nothing has been resolved; afterwards it has
  run for exactly one error, and has left behind what \<open>settled\<close> says.
\<close>

definition once_inv :: "call \<Rightarrow> state \<Rightarrow> bool" where
  "once_inv c s \<longleftrightarrow>
     (fallbackOnce s = Fresh \<longrightarrow> resolved s = [] \<and> fallback_calls s = [] \<and> fb_free (events s))
   \<and> (fallbackOnce s \<noteq> Fresh \<longrightarrow> length (resolved s) = 1)
   \<and> (fallbackOnce s = Completed \<longrightarrow> settled c (fallback_calls s) (events s) (hd (resolved s)))
   \<and> w_frame_ok c (wpc s) (resolved s) (fallback_calls s) (events s)
   \<and> d_frame_ok c (dpc s) (resolved s) (fallback_calls s) (events s)"

text \<open>The fallback events among the reported events, in order (lines 208 and 213).\<close>

definition fb_events :: "string list \<Rightarrow> string list" where
  "fb_events es = filter (\<lambda>e. e = ''fallback-success'' \<or> e = ''fallback-failure'') es"

text \<open>An activity is at the end of the body of \<open>once.Do\<close>, past the report.\<close>

fun w_returning :: "wpc \<Rightarrow> bool" where
  "w_returning (W_tryFallback x (F_Return v)) = True"
| "w_returning _ = False"

fun d_returning :: "dpc \<Rightarrow> bool" where
  "d_returning (D_tryFallback (F_Return v)) = True"
| "d_returning _ = False"

text \<open>
  The fallback is called at most once, only for the error the once guard ran for, and
  exactly one fallback event is reported once a fallback that exists has returned.
\<close>

definition single_inv :: "call \<Rightarrow> state \<Rightarrow> bool" where
  "single_inv c s \<longleftrightarrow>
     length (fallback_calls s) \<le> 1
   \<and> set (fallback_calls s) \<subseteq> set (resolved s)
   \<and> length (fb_events (events s))
       = (if fallback c \<noteq> None
             \<and> (fallbackOnce s = Completed \<or> w_returning (wpc s) \<or> d_returning (dpc s))
          then 1 else 0)"

text \<open>The error the body of \<open>once.Do\<close> ran for is the one of a reported outcome.\<close>

definition origin :: "call \<Rightarrow> string list \<Rightarrow> error \<Rightarrow> bool" where
  "origin c es r \<longleftrightarrow>
     (r = ErrTimeout \<and> ''timeout'' \<in> set es)
   \<or> (r = ErrCircuitOpen \<and> ''short-circuit'' \<in> set es)
   \<or> (r = ErrMaxConcurrency \<and> ''rejected'' \<in> set es)
   \<or> (run c = Some r \<and> ''failure'' \<in> set es)"

definition origin_inv :: "call \<Rightarrow> state \<Rightarrow> bool" where
  "origin_inv c s \<longleftrightarrow> list_all (origin c (events s)) (resolved s)"

text \<open>
  No error value is on its way before the body of \<open>once.Do\<close> has ended; afterwards
  exactly the value it delivered is, if it delivered one.
\<close>

definition flight_inv :: "call \<Rightarrow> state \<Rightarrow> bool" where
  "flight_inv c s \<longleftrightarrow>
     (fallbackOnce s \<noteq> Completed \<longrightarrow> in_flight s = 0)
   \<and> (fallbackOnce s = Completed \<longrightarrow>
        in_flight s = cnt (resolution c (hd (resolved s)))
        \<and> (\<forall>e \<in> carried s. resolution c (hd (resolved s)) = Some e))"

subsection \<open>Every report is followed by a resolution\<close>

fun w_in_fallback :: "wpc \<Rightarrow> bool" where
  "w_in_fallback (W_tryFallback x p) = True"
| "w_in_fallback _ = False"

fun d_in_fallback :: "dpc \<Rightarrow> bool" where
  "d_in_fallback (D_tryFallback p) = True"
| "d_in_fallback _ = False"

text \<open>Once the deadline goroutine has reported and left \<open>tryFallback\<close>, the once guard is completed.\<close>

definition resolves_d :: "state \<Rightarrow> bool" where
  "resolves_d s \<longleftrightarrow>
     (''timeout'' \<in> set (events s) \<longrightarrow> d_in_fallback (dpc s) \<or> fallbackOnce s = Completed)"

text \<open>
  The same for the worker; and a worker past its resolution has either seen the once
  guard completed or has reported the success of an operation that returned \<open>nil\<close>.
\<close>

definition resolves_w :: "call \<Rightarrow> state \<Rightarrow> bool" where
  "resolves_w c s \<longleftrightarrow>
     (''short-circuit'' \<in> set (events s) \<or> ''rejected'' \<in> set (events s)
        \<or> ''failure'' \<in> set (events s)
       \<longrightarrow> w_in_fallback (wpc s) \<or> fallbackOnce s = Completed)
   \<and> (w_after (wpc s) \<longrightarrow>
        fallbackOnce s = Completed \<or> (run c = None \<and> ''success'' \<in> set (events s)))
   \<and> (wpc s = W_Success \<longrightarrow> run c = None \<or> fallbackOnce s = Completed)
   \<and> (w_sending (wpc s) \<noteq> None \<longrightarrow> fallbackOnce s = Completed)"

subsection \<open>The channels \<open>done\<close> and \<open>finished\<close>\<close>

text \<open>The worker is past line 165, where \<open>Do\<close>'s closure \<open>r\<close> signals \<open>done\<close>.\<close>

fun w_signalled :: "wpc \<Rightarrow> bool" where
  "w_signalled W_Running = False"
| "w_signalled W_Do_done = False"
| "w_signalled p = w_started p"

text \<open>An activity is between line 175 (\<open>done\<close> signalled by \<open>f\<close>) and line 213.\<close>

fun w_reporting_success :: "wpc \<Rightarrow> bool" where
  "w_reporting_success (W_tryFallback x (F_Report None)) = True"
| "w_reporting_success _ = False"

fun d_reporting_success :: "dpc \<Rightarrow> bool" where
  "d_reporting_success (D_tryFallback (F_Report None)) = True"
| "d_reporting_success _ = False"

definition sent_r :: "call \<Rightarrow> state \<Rightarrow> nat" where
  "sent_r c s =
     (if via_Do c \<and> run c = None \<and> AllowRequest c \<and> 0 < Tickets c \<and> w_signalled (wpc s)
      then 1 else 0)"

definition sent_f :: "call \<Rightarrow> state \<Rightarrow> nat" where
  "sent_f c s =
     (if via_Do c \<and> (''fallback-success'' \<in> set (events s)
                     \<or> w_reporting_success (wpc s) \<or> d_reporting_success (dpc s))
      then 1 else 0)"

definition channels :: "call \<Rightarrow> state \<Rightarrow> bool" where
  "channels c s \<longleftrightarrow>
     doneChan s + (if received s = Some None then 1 else 0) = sent_r c s + sent_f c s
   \<and> (wpc s \<noteq> W_Exit \<longrightarrow> finished s = [])
   \<and> length (finished s) \<le> 1"

text \<open>All invariants together.\<close>

definition invariant :: "call \<Rightarrow> state \<Rightarrow> bool" where
  "invariant c s \<longleftrightarrow>
     locks s \<and> guard s \<and> tickets_inv c s \<and> runs_inv c s \<and> returned_inv s \<and> events_inv c s
   \<and> exits_inv c s \<and> once_inv c s \<and> single_inv c s \<and> origin_inv c s \<and> flight_inv c s \<and> resolves_d s \<and> resolves_w c s
   \<and> channels c s"

subsection \<open>Termination and progress\<close>

text \<open>An upper bound for the number of steps an activity still has to take.\<close>

fun frank :: "fpc \<Rightarrow> nat" where
  "frank F_Once = 5"
| "frank F_Call = 4"
| "frank F_Do_done = 3"
| "frank (F_Report fallbackErr) = 2"
| "frank (F_Return v) = 1"

fun wrank :: "wpc \<Rightarrow> nat" where
  "wrank W_AllowRequest = 19"
| "wrank W_LockTicket = 18"
| "wrank W_Select = 17"
| "wrank (W_UnlockTicket got) = 16"
| "wrank W_Run = 15"
| "wrank W_Running = 14"
| "wrank W_Do_done = 13"
| "wrank (W_Lock runErr) = 12"
| "wrank W_Lock_open = 12"
| "wrank (W_IfStop runErr) = 11"
| "wrank W_IfStop_open = 11"
| "wrank (W_SetStop runErr) = 10"
| "wrank W_SetStop_open = 10"
| "wrank (W_Report x) = 9"
| "wrank (W_tryFallback x p) = 3 + frank p"
| "wrank (W_Send x err) = 3"
| "wrank W_Success = 3"
| "wrank W_Unlock = 2"
| "wrank W_Finished = 1"
| "wrank W_Exit = 0"

fun drank :: "dpc \<Rightarrow> nat" where
  "drank D_NewTimer = 16"
| "drank D_Select = 15"
| "drank D_Lock = 14"
| "drank D_IfStop = 13"
| "drank D_SetStop = 12"
| "drank D_Report = 11"
| "drank (D_tryFallback p) = 5 + frank p"
| "drank (D_Send err) = 5"
| "drank D_Unlock = 4"
| "drank D_LockTicket = 3"
| "drank D_Return = 2"
| "drank D_UnlockTicket = 1"
| "drank D_Exit = 0"

definition remaining :: "state \<Rightarrow> nat" where
  "remaining s = wrank (wpc s) + drank (dpc s) + (if received s = None then 1 else 0)"

text \<open>The worker waits for something the deadline goroutine holds, and the other way round.\<close>

fun w_waits :: "wpc \<Rightarrow> bool \<Rightarrow> bool \<Rightarrow> once \<Rightarrow> bool" where
  "w_waits W_Lock_open stopLocked ticketLocked onceState = stopLocked"
| "w_waits (W_Lock runErr) stopLocked ticketLocked onceState = stopLocked"
| "w_waits W_LockTicket stopLocked ticketLocked onceState = ticketLocked"
| "w_waits (W_tryFallback x F_Once) stopLocked ticketLocked onceState = (onceState = Busy)"
| "w_waits _ stopLocked ticketLocked onceState = False"

fun d_waits :: "dpc \<Rightarrow> bool \<Rightarrow> bool \<Rightarrow> once \<Rightarrow> bool" where
  "d_waits D_Lock stopLocked ticketLocked onceState = stopLocked"
| "d_waits D_LockTicket stopLocked ticketLocked onceState = ticketLocked"
| "d_waits (D_tryFallback F_Once) stopLocked ticketLocked onceState = (onceState = Busy)"
| "d_waits _ stopLocked ticketLocked onceState = False"

text \<open>An activity is about to signal \<open>done\<close> (lines 165 and 175).\<close>

fun w_signals :: "wpc \<Rightarrow> bool" where
  "w_signals W_Do_done = True"
| "w_signals (W_tryFallback x F_Do_done) = True"
| "w_signals _ = False"

fun d_signals :: "dpc \<Rightarrow> bool" where
  "d_signals (D_tryFallback F_Do_done) = True"
| "d_signals _ = False"

section \<open>Observations and example calls\<close>

text \<open>What the circuit and the caller have seen of a call.\<close>

definition outcome :: "state \<Rightarrow> string list \<times> error list \<times> error option option" where
  "outcome s = (events s, errChan s, received s)"

text \<open>
  The errors the result channel has carried: what the caller has taken from \<open>errChan\<close>,
  then what waits in it.
\<close>

definition delivered :: "state \<Rightarrow> error list" where
  "delivered s = (case got_error (received s) of None \<Rightarrow> [] | Some err \<Rightarrow> [err]) @ errChan s"

text \<open>
  The circuit lookup has failed with \<open>err\<close> (lines 52-56): no goroutine was started,
  nothing is reported or resolved, and \<open>err\<close> is what the result channel carries.
\<close>

definition lookup_failed :: "error \<Rightarrow> state \<Rightarrow> bool" where
  "lookup_failed err s \<longleftrightarrow>
     wpc s = W_Exit \<and> dpc s = D_Exit \<and> events s = [] \<and> doneChan s = 0
   \<and> fallbackOnce s = Fresh \<and> resolved s = [] \<and> fallback_calls s = [] \<and> runs s = 0
   \<and> returned s = [] \<and> received s \<noteq> Some None \<and> delivered s = [err]"

text \<open>Both activities have ended.\<close>

definition ended :: "state \<Rightarrow> bool" where
  "ended s \<longleftrightarrow> wpc s = W_Exit \<and> dpc s = D_Exit"

text \<open>No step is possible any more.\<close>

definition stuck :: "call \<Rightarrow> state \<Rightarrow> bool" where
  "stuck c s \<longleftrightarrow> step c Worker s = None \<and> step c Deadline s = None \<and> step c Timer s = None
                \<and> step c Recv_done s = None \<and> step c Recv_err s = None"

text \<open>The ticket variable, the calls of \<open>executorPool.Return\<close> and the pool.\<close>

definition ticket_account :: "state \<Rightarrow> ticket option \<times> ticket option list \<times> nat" where
  "ticket_account s = (ticket s, returned s, pool s)"

text \<open>The operation fails and the fallback returns \<open>nil\<close>.\<close>

definition call_fallback_ok :: call where
  "call_fallback_ok =
     \<lparr>GetCircuit = None, AllowRequest = True, Tickets = 1, run = Some (ErrorString ''boom''),
      fallback = Some (\<lambda>e. None), via_Do = False\<rparr>"

text \<open>The worker alone, then the deadline goroutine.\<close>

definition sched_worker_first :: "action list" where
  "sched_worker_first = replicate 17 Worker @ replicate 5 Deadline"

text \<open>No ticket is free and there is no fallback.\<close>

definition call_rejected :: call where
  "call_rejected =
     \<lparr>GetCircuit = None, AllowRequest = True, Tickets = 0, run = None,
      fallback = None, via_Do = False\<rparr>"

text \<open>
  The worker finds no ticket; before it reports, the timer fires and the deadline
  goroutine reports; then the worker reports too.
\<close>

definition sched_rejected_race :: "action list" where
  "sched_rejected_race =
     replicate 4 Worker @ [Deadline, Timer] @ replicate 4 Deadline @ [Worker]
     @ replicate 8 Deadline @ replicate 2 Worker"

text \<open>The operation succeeds; a ticket is free; there is no fallback.\<close>

definition call_success :: call where
  "call_success =
     \<lparr>GetCircuit = None, AllowRequest = True, Tickets = 1, run = None,
      fallback = None, via_Do = False\<rparr>"


text \<open>
  The timer fires and the deadline goroutine runs to its end before the worker takes
  its first step.
\<close>

definition sched_deadline_first :: "action list" where
  "sched_deadline_first = [Deadline, Timer] @ replicate 12 Deadline @ replicate 10 Worker"

text \<open>The circuit is open; there is no fallback.\<close>

definition call_open :: call where
  "call_open =
     \<lparr>GetCircuit = None, AllowRequest = False, Tickets = 1, run = None,
      fallback = None, via_Do = False\<rparr>"

definition sched_open_late :: "action list" where
  "sched_open_late = [Deadline, Timer] @ replicate 12 Deadline @ replicate 5 Worker"

text \<open>The circuit is open and the fallback fails.\<close>

definition call_open_fallback_fails :: call where
  "call_open_fallback_fails =
     \<lparr>GetCircuit = None, AllowRequest = False, Tickets = 1, run = None,
      fallback = Some (\<lambda>e. Some (ErrorString ''cache down'')), via_Do = False\<rparr>"

definition sched_open :: "action list" where
  "sched_open = replicate 12 Worker @ replicate 5 Deadline"

text \<open>The operation fails after the deadline; there is no fallback.\<close>

definition call_late_failure :: call where
  "call_late_failure =
     \<lparr>GetCircuit = None, AllowRequest = True, Tickets = 1, run = Some (ErrorString ''late''),
      fallback = None, via_Do = False\<rparr>"


text \<open>A call through \<open>Do\<close>: the operation fails, the fallback returns \<open>nil\<close>.\<close>

definition call_Do :: call where
  "call_Do =
     \<lparr>GetCircuit = None, AllowRequest = True, Tickets = 2, run = Some (ErrorString ''unavailable''),
      fallback = Some (\<lambda>e. None), via_Do = True\<rparr>"

definition sched_Do :: "action list" where
  "sched_Do = replicate 18 Worker @ [Recv_done] @ replicate 5 Deadline"

definition sched_Do_early :: "action list" where
  "sched_Do_early = replicate 13 Worker @ [Recv_done] @ replicate 5 Worker @ replicate 5 Deadline"

text \<open>The timer fires while the operation runs; the deadline goroutine has just reported.\<close>

definition sched_timeout_fires :: "action list" where
  "sched_timeout_fires = replicate 5 Worker @ [Deadline, Timer] @ replicate 4 Deadline"

text \<open>The worker has ended; the deadline goroutine is about to call \<open>executorPool.Return\<close>.\<close>

definition sched_before_Return :: "action list" where
  "sched_before_Return = replicate 12 Worker @ replicate 3 Deadline"

text \<open>The caller of \<open>Do\<close> takes the error from \<open>errChan\<close> as soon as the worker has ended.\<close>

definition sched_Do_open :: "action list" where
  "sched_Do_open = replicate 12 Worker @ [Recv_err] @ replicate 5 Deadline"

text \<open>The circuit lookup fails; the caller takes the error.\<close>

definition call_no_circuit :: call where
  "call_no_circuit =
     \<lparr>GetCircuit = Some (ErrorString ''no circuit''), AllowRequest = True, Tickets = 1,
      run = Some (ErrorString ''unavailable''), fallback = Some (\<lambda>e. None), via_Do = False\<rparr>"

definition sched_take_error :: "action list" where
  "sched_take_error = [Recv_err]"

section \<open>Proofs of the invariants\<close>

lemma site_event_not_fallback [simp]:
  "site_event x \<noteq> ''fallback-success''" "site_event x \<noteq> ''fallback-failure''"
  "site_event x \<noteq> ''timeout''" "site_event x \<noteq> ''success''"
  "''fallback-success'' \<noteq> site_event x" "''fallback-failure'' \<noteq> site_event x"
  "''timeout'' \<noteq> site_event x" "''success'' \<noteq> site_event x"
  by (cases x; simp)+

lemma after_locked [simp]:
  "w_locked (after_fallback x) = guarded x" "w_locked (after_send x) = guarded x"
  "\<not> w_ticket_locked (after_fallback x)" "\<not> w_ticket_locked (after_send x)"
  "\<not> w_in_once (after_fallback x)" "\<not> w_in_once (after_send x)"
  by (cases x; simp)+

lemma locks_Go: "GetCircuit c = None \<Longrightarrow> locks (Go c)"
  by (simp add: locks_def Go_def)

lemma locks_worker:
  assumes "locks s"
  shows "pred_option locks (worker c (wpc s) s)"
proof (cases "wpc s")
  case (W_tryFallback x p)
  with assms show ?thesis
    by (cases p)
       (auto simp: locks_def ReportEvent_def split: once.splits option.splits if_splits)
next
  case (W_SetStop runErr)
  with assms show ?thesis by (cases runErr) (auto simp: locks_def)
qed (use assms in \<open>auto simp: locks_def ReportEvent_def split: if_splits\<close>)

lemma locks_deadline:
  assumes "locks s"
  shows "pred_option locks (deadline c timer (dpc s) s)"
proof (cases timer)
  case True
  with assms show ?thesis by (cases "dpc s") (auto simp: locks_def)
next
  case False
  show ?thesis
  proof (cases "dpc s")
    case (D_tryFallback p)
    with assms False show ?thesis
      by (cases p)
         (auto simp: locks_def ReportEvent_def split: once.splits option.splits if_splits)
  qed (use assms False in \<open>auto simp: locks_def ReportEvent_def Return_def
         split: if_splits list.splits\<close>)
qed

lemma locks_step:
  assumes "locks s"
  shows "pred_option locks (step c a s)"
proof (cases a)
  case Worker
  with locks_worker[OF assms] show ?thesis by simp
next
  case Deadline
  with locks_deadline[OF assms] show ?thesis by simp
next
  case Timer
  with locks_deadline[OF assms] show ?thesis by simp
next
  case Recv_done
  with assms show ?thesis by (auto simp: locks_def)
next
  case Recv_err
  with assms show ?thesis by (auto simp: locks_def split: list.splits)
qed

lemma reported_simps [simp]:
  "\<not> w_reported []" "\<not> d_reported []"
  "w_reported (es @ [e]) = (w_reported es \<or> e = ''short-circuit'' \<or> e = ''failure'' \<or> e = ''success'')"
  "d_reported (es @ [e]) = (d_reported es \<or> e = ''timeout'')"
  by (auto simp: w_reported_def d_reported_def)

lemma reported_mem [simp]:
  "''short-circuit'' \<in> set es \<Longrightarrow> w_reported es" "''failure'' \<in> set es \<Longrightarrow> w_reported es"
  "''success'' \<in> set es \<Longrightarrow> w_reported es" "''timeout'' \<in> set es \<Longrightarrow> d_reported es"
  by (auto simp: w_reported_def d_reported_def)

lemma locks_excl:
  "locks s \<Longrightarrow> \<not> (w_locked (wpc s) \<and> d_locked (dpc s))"
  "locks s \<Longrightarrow> \<not> (w_in_once (wpc s) \<and> d_in_once (dpc s))"
  "locks s \<Longrightarrow> (fallbackOnce s = Busy) = (w_in_once (wpc s) \<or> d_in_once (dpc s))"
  by (simp_all add: locks_def)

lemma after_chosen [simp]:
  "w_chosen (after_fallback x) = (\<exists>e. x = Failure e)" "\<not> w_chosen (after_send x)"
  "\<not> w_setting (after_fallback x)" "\<not> w_setting (after_send x)"
  "w_after (after_fallback x) = (\<forall>e. x \<noteq> Failure e)" "w_after (after_send x)"
  "w_site_reported (after_fallback x) es" "w_site_reported (after_send x) es"
  by (cases x; simp)+

lemma w_site_reported_mono [simp]:
  "w_site_reported p es \<Longrightarrow> w_site_reported p (es @ [e])"
  by (cases p) auto

lemma guard_Go: "GetCircuit c = None \<Longrightarrow> guard (Go c)"
  by (simp add: guard_def Go_def)

lemma guard_worker:
  assumes "locks s" "guard s"
  shows "pred_option guard (worker c (wpc s) s)"
proof (cases "wpc s")
  case (W_tryFallback x p)
  with locks_excl(1)[OF assms(1)] assms(2) show ?thesis
    by (cases p; cases x)
       (auto simp: guard_def ReportEvent_def split: once.splits option.splits if_splits)
next
  case (W_SetStop runErr)
  with locks_excl(1)[OF assms(1)] assms(2) show ?thesis
    by (cases runErr) (auto simp: guard_def)
next
  case (W_Report x)
  with locks_excl(1)[OF assms(1)] assms(2) show ?thesis
    by (cases x) (auto simp: guard_def ReportEvent_def)
next
  case (W_Send x err)
  with locks_excl(1)[OF assms(1)] assms(2) show ?thesis
    by (cases x) (auto simp: guard_def)
qed (use locks_excl(1)[OF assms(1)] assms(2) in
      \<open>auto simp: guard_def ReportEvent_def split: if_splits\<close>)

lemma w_atoms:
  "w_setting p \<Longrightarrow> w_locked p" "w_chosen p \<Longrightarrow> w_locked p"
  by (cases p; simp)+

lemma d_atoms:
  "d_chosen p \<Longrightarrow> d_locked p" "d_in_fallback p \<Longrightarrow> d_locked p"
  "d_in_once p \<Longrightarrow> d_locked p" "d_sending p \<noteq> None \<Longrightarrow> d_locked p"
  by (cases p; simp)+

lemma guard_deadline:
  assumes "locks s" "guard s"
  shows "pred_option guard (deadline c timer (dpc s) s)"
proof (cases timer)
  case True
  with locks_excl(1)[OF assms(1)] assms(2) show ?thesis
    by (cases "dpc s") (auto simp: guard_def)
next
  case False
  show ?thesis
  proof (cases "dpc s")
    case (D_tryFallback p)
    with locks_excl(1)[OF assms(1)] assms(2) False show ?thesis
      by (cases p)
         (auto simp: guard_def ReportEvent_def split: once.splits option.splits if_splits)
  qed (use locks_excl(1)[OF assms(1)] assms(2) False in
        \<open>auto simp: guard_def ReportEvent_def Return_def dest: w_atoms
           split: if_splits list.splits\<close>)
qed

lemma guard_step:
  assumes "locks s" "guard s"
  shows "pred_option guard (step c a s)"
proof (cases a)
  case Worker
  with guard_worker[OF assms] show ?thesis by simp
next
  case Deadline
  with guard_deadline[OF assms] show ?thesis by simp
next
  case Timer
  with guard_deadline[OF assms] show ?thesis by simp
next
  case Recv_done
  with assms show ?thesis by (auto simp: guard_def)
next
  case Recv_err
  with assms show ?thesis by (auto simp: guard_def split: list.splits)
qed

lemma after_path [simp]:
  "on_site c x \<Longrightarrow> w_path c (after_fallback x)" "on_site c x \<Longrightarrow> w_path c (after_send x)"
  "w_past_select (after_fallback x)" "w_past_select (after_send x)"
  "w_started (after_fallback x)" "w_started (after_send x)"
  by (cases x; simp)+

lemma guard_site: "guard s \<Longrightarrow> w_site_reported (wpc s) (events s)"
  by (simp add: guard_def)

lemma stopped_by_deadline:
  assumes "locks s" "guard s" "w_locked (wpc s)" "\<not> w_chosen (wpc s)" "\<not> w_after (wpc s)"
    and "stop s"
  shows "''timeout'' \<in> set (events s)" "\<not> d_in_fallback (dpc s)"
  using locks_excl(1)[OF assms(1)] assms(2-)
  by (auto simp: guard_def d_reported_def dest: d_atoms)

lemma tickets_Go: "GetCircuit c = None \<Longrightarrow> tickets_inv c (Go c)"
  by (simp add: tickets_inv_def Go_def)

lemma tickets_worker:
  assumes "tickets_inv c s"
  shows "pred_option (tickets_inv c) (worker c (wpc s) s)"
proof (cases "wpc s")
  case (W_tryFallback x p)
  with assms show ?thesis
    by (cases p; cases x)
       (auto simp: tickets_inv_def ReportEvent_def split: once.splits option.splits)
next
  case (W_SetStop runErr)
  with assms show ?thesis by (cases runErr) (auto simp: tickets_inv_def)
next
  case (W_Report x)
  with assms show ?thesis by (cases x) (auto simp: tickets_inv_def ReportEvent_def)
next
  case (W_Send x err)
  with assms show ?thesis by (cases x) (auto simp: tickets_inv_def)
next
  case (W_UnlockTicket got)
  with assms show ?thesis by (cases got) (auto simp: tickets_inv_def)
qed (use assms in \<open>auto simp: tickets_inv_def ReportEvent_def\<close>)

lemma tickets_deadline:
  assumes "tickets_inv c s" "returned_inv s"
  shows "pred_option (tickets_inv c) (deadline c timer (dpc s) s)"
proof (cases timer)
  case True
  with assms(1) show ?thesis by (cases "dpc s") (auto simp: tickets_inv_def)
next
  case False
  show ?thesis
  proof (cases "dpc s")
    case (D_tryFallback p)
    with assms(1) False show ?thesis
      by (cases p)
         (auto simp: tickets_inv_def ReportEvent_def split: once.splits option.splits)
  next
    case D_Return
    with assms False show ?thesis
      by (auto simp: tickets_inv_def returned_inv_def Return_def)
  qed (use assms(1) False in \<open>auto simp: tickets_inv_def ReportEvent_def split: list.splits\<close>)
qed

lemma tickets_step:
  assumes "tickets_inv c s" "returned_inv s"
  shows "pred_option (tickets_inv c) (step c a s)"
proof (cases a)
  case Worker
  with tickets_worker[OF assms(1)] show ?thesis by simp
next
  case Deadline
  with tickets_deadline[OF assms] show ?thesis by simp
next
  case Timer
  with tickets_deadline[OF assms] show ?thesis by simp
next
  case Recv_done
  with assms(1) show ?thesis by (auto simp: tickets_inv_def)
next
  case Recv_err
  with assms(1) show ?thesis by (auto simp: tickets_inv_def split: list.splits)
qed

lemma tickets_path: "tickets_inv c s \<Longrightarrow> w_path c (wpc s)"
  by (simp add: tickets_inv_def)

lemma runs_Go: "GetCircuit c = None \<Longrightarrow> runs_inv c (Go c)"
  by (simp add: runs_inv_def Go_def)

lemma runs_worker:
  assumes "tickets_inv c s" "runs_inv c s"
  shows "pred_option (runs_inv c) (worker c (wpc s) s)"
proof (cases "wpc s")
  case (W_tryFallback x p)
  with assms(2) show ?thesis
    by (cases p)
       (auto simp: runs_inv_def ReportEvent_def split: once.splits option.splits)
next
  case (W_SetStop runErr)
  with assms(2) show ?thesis by (cases runErr) (auto simp: runs_inv_def)
next
  case W_Run
  with tickets_path[OF assms(1)] assms(2) show ?thesis by (auto simp: runs_inv_def)
qed (use tickets_path[OF assms(1)] assms(2) in \<open>auto simp: runs_inv_def ReportEvent_def\<close>)

lemma runs_deadline:
  assumes "runs_inv c s"
  shows "pred_option (runs_inv c) (deadline c timer (dpc s) s)"
proof (cases timer)
  case True
  with assms show ?thesis by (cases "dpc s") (auto simp: runs_inv_def)
next
  case False
  show ?thesis
  proof (cases "dpc s")
    case (D_tryFallback p)
    with assms False show ?thesis
      by (cases p)
         (auto simp: runs_inv_def ReportEvent_def split: once.splits option.splits)
  qed (use assms False in \<open>auto simp: runs_inv_def ReportEvent_def Return_def
         split: list.splits\<close>)
qed

lemma runs_step:
  assumes "tickets_inv c s" "runs_inv c s"
  shows "pred_option (runs_inv c) (step c a s)"
proof (cases a)
  case Worker
  with runs_worker[OF assms] show ?thesis by simp
next
  case Deadline
  with runs_deadline[OF assms(2)] show ?thesis by simp
next
  case Timer
  with runs_deadline[OF assms(2)] show ?thesis by simp
next
  case Recv_done
  with assms(2) show ?thesis by (auto simp: runs_inv_def)
next
  case Recv_err
  with assms(2) show ?thesis by (auto simp: runs_inv_def split: list.splits)
qed

lemma returned_Go: "GetCircuit c = None \<Longrightarrow> returned_inv (Go c)"
  by (simp add: returned_inv_def Go_def)

lemma returned_worker:
  assumes "returned_inv s"
  shows "pred_option returned_inv (worker c (wpc s) s)"
proof (cases "wpc s")
  case (W_tryFallback x p)
  with assms show ?thesis
    by (cases p)
       (auto simp: returned_inv_def ReportEvent_def split: once.splits option.splits)
next
  case (W_SetStop runErr)
  with assms show ?thesis by (cases runErr) (auto simp: returned_inv_def)
qed (use assms in \<open>auto simp: returned_inv_def ReportEvent_def\<close>)

lemma returned_deadline:
  assumes "returned_inv s"
  shows "pred_option returned_inv (deadline c timer (dpc s) s)"
proof (cases timer)
  case True
  with assms show ?thesis by (cases "dpc s") (auto simp: returned_inv_def)
next
  case False
  show ?thesis
  proof (cases "dpc s")
    case (D_tryFallback p)
    with assms False show ?thesis
      by (cases p)
         (auto simp: returned_inv_def ReportEvent_def split: once.splits option.splits)
  qed (use assms False in \<open>auto simp: returned_inv_def ReportEvent_def Return_def
         split: list.splits\<close>)
qed

lemma returned_step:
  assumes "returned_inv s"
  shows "pred_option returned_inv (step c a s)"
proof (cases a)
  case Worker
  with returned_worker[OF assms] show ?thesis by simp
next
  case Deadline
  with returned_deadline[OF assms] show ?thesis by simp
next
  case Timer
  with returned_deadline[OF assms] show ?thesis by simp
next
  case Recv_done
  with assms show ?thesis by (auto simp: returned_inv_def)
next
  case Recv_err
  with assms show ?thesis by (auto simp: returned_inv_def split: list.splits)
qed

lemma path_event_other [simp]:
  "path_event c ''timeout''" "path_event c ''fallback-success''" "path_event c ''fallback-failure''"
  by (simp_all add: path_event_def)

lemma path_event_site [simp]: "on_site c x \<Longrightarrow> path_event c (site_event x)"
  by (cases x) (auto simp: path_event_def)

lemma events_Go: "GetCircuit c = None \<Longrightarrow> events_inv c (Go c)"
  by (simp add: events_inv_def Go_def)

lemma events_worker:
  assumes "tickets_inv c s" "events_inv c s"
  shows "pred_option (events_inv c) (worker c (wpc s) s)"
proof (cases "wpc s")
  case (W_tryFallback x p)
  with assms(2) show ?thesis
    by (cases p)
       (auto simp: events_inv_def ReportEvent_def split: once.splits option.splits)
next
  case (W_SetStop runErr)
  with assms(2) show ?thesis by (cases runErr) (auto simp: events_inv_def)
next
  case (W_Report x)
  with tickets_path[OF assms(1)] assms(2) show ?thesis
    by (auto simp: events_inv_def ReportEvent_def)
next
  case W_Success
  with tickets_path[OF assms(1)] assms(2) show ?thesis
    by (auto simp: events_inv_def ReportEvent_def path_event_def)
qed (use assms(2) in \<open>auto simp: events_inv_def ReportEvent_def\<close>)

lemma events_deadline:
  assumes "events_inv c s"
  shows "pred_option (events_inv c) (deadline c timer (dpc s) s)"
proof (cases timer)
  case True
  with assms show ?thesis by (cases "dpc s") (auto simp: events_inv_def)
next
  case False
  show ?thesis
  proof (cases "dpc s")
    case (D_tryFallback p)
    with assms False show ?thesis
      by (cases p)
         (auto simp: events_inv_def ReportEvent_def split: once.splits option.splits)
  qed (use assms False in \<open>auto simp: events_inv_def ReportEvent_def Return_def
         split: list.splits\<close>)
qed

lemma events_step:
  assumes "tickets_inv c s" "events_inv c s"
  shows "pred_option (events_inv c) (step c a s)"
proof (cases a)
  case Worker
  with events_worker[OF assms] show ?thesis by simp
next
  case Deadline
  with events_deadline[OF assms(2)] show ?thesis by simp
next
  case Timer
  with events_deadline[OF assms(2)] show ?thesis by simp
next
  case Recv_done
  with assms(2) show ?thesis by (auto simp: events_inv_def)
next
  case Recv_err
  with assms(2) show ?thesis by (auto simp: events_inv_def split: list.splits)
qed

lemma exits_Go: "GetCircuit c = None \<Longrightarrow> exits_inv c (Go c)"
  by (simp add: exits_inv_def Go_def)

lemma exits_worker:
  assumes "locks s" "guard s" "tickets_inv c s" "exits_inv c s"
  shows "pred_option (exits_inv c) (worker c (wpc s) s)"
proof (cases "wpc s")
  case (W_tryFallback x p)
  with guard_site[OF assms(2)] tickets_path[OF assms(3)] assms(4) show ?thesis
    by (cases p; cases x)
       (auto simp: exits_inv_def ReportEvent_def split: once.splits option.splits)
next
  case (W_SetStop runErr)
  with tickets_path[OF assms(3)] assms(4) show ?thesis
    by (cases runErr) (auto simp: exits_inv_def)
next
  case (W_Send x err)
  with guard_site[OF assms(2)] tickets_path[OF assms(3)] assms(4) show ?thesis
    by (cases x) (auto simp: exits_inv_def)
next
  case W_IfStop_open
  with stopped_by_deadline(1)[OF assms(1,2)] tickets_path[OF assms(3)] assms(4) show ?thesis
    by (cases "stop s") (auto simp: exits_inv_def)
next
  case (W_IfStop runErr)
  with tickets_path[OF assms(3)] assms(4) show ?thesis by (auto simp: exits_inv_def)
next
  case W_Success
  with tickets_path[OF assms(3)] assms(4) show ?thesis
    by (auto simp: exits_inv_def ReportEvent_def)
qed (use tickets_path[OF assms(3)] assms(4) in \<open>auto simp: exits_inv_def ReportEvent_def\<close>)

lemma exits_deadline:
  assumes "exits_inv c s"
  shows "pred_option (exits_inv c) (deadline c timer (dpc s) s)"
proof (cases timer)
  case True
  with assms show ?thesis by (cases "dpc s") (auto simp: exits_inv_def)
next
  case False
  show ?thesis
  proof (cases "dpc s")
    case (D_tryFallback p)
    with assms False show ?thesis
      by (cases p)
         (auto simp: exits_inv_def ReportEvent_def split: once.splits option.splits)
  qed (use assms False in \<open>auto simp: exits_inv_def ReportEvent_def Return_def
         split: list.splits\<close>)
qed

lemma exits_step:
  assumes "locks s" "guard s" "tickets_inv c s" "exits_inv c s"
  shows "pred_option (exits_inv c) (step c a s)"
proof (cases a)
  case Worker
  with exits_worker[OF assms] show ?thesis by simp
next
  case Deadline
  with exits_deadline[OF assms(4)] show ?thesis by simp
next
  case Timer
  with exits_deadline[OF assms(4)] show ?thesis by simp
next
  case Recv_done
  with assms(4) show ?thesis by (auto simp: exits_inv_def)
next
  case Recv_err
  with assms(4) show ?thesis by (auto simp: exits_inv_def split: list.splits)
qed

lemma fb_free_simps [simp]:
  "fb_free []"
  "fb_free (es @ [e]) = (fb_free es \<and> e \<noteq> ''fallback-success'' \<and> e \<noteq> ''fallback-failure'')"
  by (auto simp: fb_free_def)

lemma settled_other [simp]:
  "e \<noteq> ''fallback-success'' \<Longrightarrow> e \<noteq> ''fallback-failure'' \<Longrightarrow>
   settled c calls (es @ [e]) err = settled c calls es err"
  by (auto simp: settled_def split: option.splits)

lemma frame_ok_other [simp]:
  "e \<noteq> ''fallback-success'' \<Longrightarrow> e \<noteq> ''fallback-failure'' \<Longrightarrow>
   frame_ok c err p rs calls (es @ [e]) = frame_ok c err p rs calls es"
  by (cases p) auto

lemma w_frame_ok_other [simp]:
  "e \<noteq> ''fallback-success'' \<Longrightarrow> e \<noteq> ''fallback-failure'' \<Longrightarrow>
   w_frame_ok c p rs calls (es @ [e]) = w_frame_ok c p rs calls es"
  by (cases p) auto

lemma d_frame_ok_other [simp]:
  "e \<noteq> ''fallback-success'' \<Longrightarrow> e \<noteq> ''fallback-failure'' \<Longrightarrow>
   d_frame_ok c p rs calls (es @ [e]) = d_frame_ok c p rs calls es"
  by (cases p) auto

lemma frame_ok_outside [simp]:
  "\<not> w_in_once p \<Longrightarrow> w_frame_ok c p rs calls es"
  "\<not> d_in_once q \<Longrightarrow> d_frame_ok c q rs calls es"
  by (cases p; auto; rename_tac x f; case_tac f; simp)
     (cases q; auto; rename_tac f; case_tac f; simp)

lemma once_Go: "GetCircuit c = None \<Longrightarrow> once_inv c (Go c)"
  by (simp add: once_inv_def Go_def)

lemma once_worker:
  assumes "locks s" "once_inv c s"
  shows "pred_option (once_inv c) (worker c (wpc s) s)"
proof (cases "wpc s")
  case (W_tryFallback x p)
  with locks_excl(2,3)[OF assms(1)] assms(2) show ?thesis
    by (cases p)
       (auto simp: once_inv_def ReportEvent_def resolution_def settled_def fb_free_def
             split: once.splits option.splits)
next
  case (W_SetStop runErr)
  with assms(2) show ?thesis by (cases runErr) (auto simp: once_inv_def)
qed (use assms(2) in \<open>auto simp: once_inv_def ReportEvent_def\<close>)

lemma once_deadline:
  assumes "locks s" "once_inv c s"
  shows "pred_option (once_inv c) (deadline c timer (dpc s) s)"
proof (cases timer)
  case True
  with assms(2) show ?thesis by (cases "dpc s") (auto simp: once_inv_def)
next
  case False
  show ?thesis
  proof (cases "dpc s")
    case (D_tryFallback p)
    with locks_excl(2,3)[OF assms(1)] assms(2) False show ?thesis
      by (cases p)
         (auto simp: once_inv_def ReportEvent_def resolution_def settled_def fb_free_def
               split: once.splits option.splits)
  qed (use assms(2) False in \<open>auto simp: once_inv_def ReportEvent_def Return_def
         split: list.splits\<close>)
qed

lemma once_step:
  assumes "locks s" "once_inv c s"
  shows "pred_option (once_inv c) (step c a s)"
proof (cases a)
  case Worker
  with once_worker[OF assms] show ?thesis by simp
next
  case Deadline
  with once_deadline[OF assms] show ?thesis by simp
next
  case Timer
  with once_deadline[OF assms] show ?thesis by simp
next
  case Recv_done
  with assms(2) show ?thesis by (auto simp: once_inv_def)
next
  case Recv_err
  with assms(2) show ?thesis by (auto simp: once_inv_def split: list.splits)
qed

lemma once_frame_w:
  "once_inv c s \<Longrightarrow> w_frame_ok c (wpc s) (resolved s) (fallback_calls s) (events s)"
  by (simp add: once_inv_def)

lemma once_frame_d:
  "once_inv c s \<Longrightarrow> d_frame_ok c (dpc s) (resolved s) (fallback_calls s) (events s)"
  by (simp add: once_inv_def)

lemma returning_in_once:
  "w_returning p \<Longrightarrow> w_in_once p" "d_returning q \<Longrightarrow> d_in_once q"
  by (cases p rule: w_returning.cases; simp)
     (cases q rule: d_returning.cases; simp)

lemma not_returning [simp]:
  "\<not> w_in_once p \<Longrightarrow> \<not> w_returning p" "\<not> d_in_once q \<Longrightarrow> \<not> d_returning q"
  using returning_in_once by blast+

lemma after_returning [simp]:
  "\<not> w_returning (after_fallback x)" "\<not> w_returning (after_send x)"
  by (cases x; simp)+

lemma fb_events_simps [simp]:
  "fb_events [] = []"
  "fb_events (es @ [''fallback-success'']) = fb_events es @ [''fallback-success'']"
  "fb_events (es @ [''fallback-failure'']) = fb_events es @ [''fallback-failure'']"
  "fb_events (es @ [''timeout'']) = fb_events es"
  "fb_events (es @ [''success'']) = fb_events es"
  "fb_events (es @ [site_event x]) = fb_events es"
  by (simp_all add: fb_events_def)

lemma single_Go: "GetCircuit c = None \<Longrightarrow> single_inv c (Go c)"
  by (simp add: single_inv_def Go_def)

lemma single_worker:
  assumes "locks s" "once_inv c s" "single_inv c s"
  shows "pred_option (single_inv c) (worker c (wpc s) s)"
proof (cases "wpc s")
  case (W_tryFallback x p)
  with locks_excl(2,3)[OF assms(1)] once_frame_w[OF assms(2)] assms(3) show ?thesis
    by (cases p)
       (auto simp: single_inv_def ReportEvent_def split: once.splits option.splits)
next
  case (W_SetStop runErr)
  with assms(3) show ?thesis by (cases runErr) (auto simp: single_inv_def)
qed (use assms(3) in \<open>auto simp: single_inv_def ReportEvent_def\<close>)

lemma single_deadline:
  assumes "locks s" "once_inv c s" "single_inv c s"
  shows "pred_option (single_inv c) (deadline c timer (dpc s) s)"
proof (cases timer)
  case True
  with assms(3) show ?thesis by (cases "dpc s") (auto simp: single_inv_def)
next
  case False
  show ?thesis
  proof (cases "dpc s")
    case (D_tryFallback p)
    with locks_excl(2,3)[OF assms(1)] once_frame_d[OF assms(2)] assms(3) False show ?thesis
      by (cases p)
         (auto simp: single_inv_def ReportEvent_def split: once.splits option.splits)
  qed (use assms(3) False in \<open>auto simp: single_inv_def ReportEvent_def Return_def
         split: list.splits\<close>)
qed

lemma single_step:
  assumes "locks s" "once_inv c s" "single_inv c s"
  shows "pred_option (single_inv c) (step c a s)"
proof (cases a)
  case Worker
  with single_worker[OF assms] show ?thesis by simp
next
  case Deadline
  with single_deadline[OF assms] show ?thesis by simp
next
  case Timer
  with single_deadline[OF assms] show ?thesis by simp
next
  case Recv_done
  with assms(3) show ?thesis by (auto simp: single_inv_def)
next
  case Recv_err
  with assms(3) show ?thesis by (auto simp: single_inv_def split: list.splits)
qed

lemma origin_mono [simp]: "origin c es r \<Longrightarrow> origin c (es @ [e]) r"
  by (auto simp: origin_def)

lemma list_all_origin_mono [simp]:
  "list_all (origin c es) rs \<Longrightarrow> list_all (origin c (es @ [e])) rs"
  by (induction rs) auto

lemma origin_site: "site_event x \<in> set es \<Longrightarrow> on_site c x \<Longrightarrow> origin c es (site_error x)"
  by (cases x) (auto simp: origin_def)

lemma origin_timeout: "''timeout'' \<in> set es \<Longrightarrow> origin c es ErrTimeout"
  by (simp add: origin_def)

lemma guard_timeout: "guard s \<Longrightarrow> d_in_fallback (dpc s) \<Longrightarrow> ''timeout'' \<in> set (events s)"
  by (cases "dpc s") (auto simp: guard_def d_reported_def)

lemma once_Fresh: "once_inv c s \<Longrightarrow> fallbackOnce s = Fresh \<Longrightarrow> resolved s = []"
  by (simp add: once_inv_def)

lemma origin_Go: "GetCircuit c = None \<Longrightarrow> origin_inv c (Go c)"
  by (simp add: origin_inv_def Go_def)

lemma origin_worker:
  assumes "guard s" "tickets_inv c s" "once_inv c s" "origin_inv c s"
  shows "pred_option (origin_inv c) (worker c (wpc s) s)"
proof (cases "wpc s")
  case (W_tryFallback x p)
  with guard_site[OF assms(1)] tickets_path[OF assms(2)] once_Fresh[OF assms(3)] assms(4)
  show ?thesis
    by (cases p)
       (auto simp: origin_inv_def ReportEvent_def origin_site split: once.splits option.splits)
next
  case (W_SetStop runErr)
  with assms(4) show ?thesis by (cases runErr) (auto simp: origin_inv_def)
qed (use assms(4) in \<open>auto simp: origin_inv_def ReportEvent_def\<close>)

lemma origin_deadline:
  assumes "guard s" "once_inv c s" "origin_inv c s"
  shows "pred_option (origin_inv c) (deadline c timer (dpc s) s)"
proof (cases timer)
  case True
  with assms(3) show ?thesis by (cases "dpc s") (auto simp: origin_inv_def)
next
  case False
  show ?thesis
  proof (cases "dpc s")
    case (D_tryFallback p)
    with guard_timeout[OF assms(1)] once_Fresh[OF assms(2)] assms(3) False show ?thesis
      by (cases p)
         (auto simp: origin_inv_def ReportEvent_def origin_timeout
               split: once.splits option.splits)
  qed (use assms(3) False in \<open>auto simp: origin_inv_def ReportEvent_def Return_def
         split: list.splits\<close>)
qed

lemma origin_step:
  assumes "guard s" "tickets_inv c s" "once_inv c s" "origin_inv c s"
  shows "pred_option (origin_inv c) (step c a s)"
proof (cases a)
  case Worker
  with origin_worker[OF assms] show ?thesis by simp
next
  case Deadline
  with origin_deadline[OF assms(1,3,4)] show ?thesis by simp
next
  case Timer
  with origin_deadline[OF assms(1,3,4)] show ?thesis by simp
next
  case Recv_done
  with assms(4) show ?thesis by (auto simp: origin_inv_def)
next
  case Recv_err
  with assms(4) show ?thesis by (auto simp: origin_inv_def split: list.splits)
qed

lemma after_sending [simp]:
  "w_sending (after_fallback x) = None" "w_sending (after_send x) = None"
  by (cases x; simp)+

lemma flight_Go: "GetCircuit c = None \<Longrightarrow> flight_inv c (Go c)"
  by (simp add: flight_inv_def in_flight_def carried_def Go_def)

lemma flight_worker:
  assumes "locks s" "once_inv c s" "flight_inv c s"
  shows "pred_option (flight_inv c) (worker c (wpc s) s)"
proof (cases "wpc s")
  case (W_tryFallback x p)
  with locks_excl(2,3)[OF assms(1)] once_frame_w[OF assms(2)] assms(3) show ?thesis
    by (cases p)
       (auto simp: flight_inv_def in_flight_def carried_def ReportEvent_def
             split: once.splits option.splits)
next
  case (W_SetStop runErr)
  with assms(3) show ?thesis
    by (cases runErr) (auto simp: flight_inv_def in_flight_def carried_def)
next
  case (W_Send x err)
  with assms(3) show ?thesis
    by (auto simp: flight_inv_def in_flight_def carried_def)
qed (use assms(3) in \<open>auto simp: flight_inv_def in_flight_def carried_def ReportEvent_def\<close>)

lemma flight_deadline:
  assumes "locks s" "once_inv c s" "flight_inv c s"
  shows "pred_option (flight_inv c) (deadline c timer (dpc s) s)"
proof (cases timer)
  case True
  with assms(3) show ?thesis
    by (cases "dpc s") (auto simp: flight_inv_def in_flight_def carried_def)
next
  case False
  show ?thesis
  proof (cases "dpc s")
    case (D_tryFallback p)
    with locks_excl(2,3)[OF assms(1)] once_frame_d[OF assms(2)] assms(3) False show ?thesis
      by (cases p)
         (auto simp: flight_inv_def in_flight_def carried_def ReportEvent_def
               split: once.splits option.splits)
  qed (use assms(3) False in \<open>auto simp: flight_inv_def in_flight_def carried_def
         ReportEvent_def Return_def split: list.splits\<close>)
qed

lemma flight_step:
  assumes "locks s" "once_inv c s" "flight_inv c s"
  shows "pred_option (flight_inv c) (step c a s)"
proof (cases a)
  case Worker
  with flight_worker[OF assms] show ?thesis by simp
next
  case Deadline
  with flight_deadline[OF assms] show ?thesis by simp
next
  case Timer
  with flight_deadline[OF assms] show ?thesis by simp
next
  case Recv_done
  with assms(3) show ?thesis by (auto simp: flight_inv_def in_flight_def carried_def)
next
  case Recv_err
  with assms(3) show ?thesis
    by (auto simp: flight_inv_def in_flight_def carried_def split: list.splits)
qed

lemma after_in_fallback [simp]:
  "\<not> w_in_fallback (after_fallback x)" "\<not> w_in_fallback (after_send x)"
  "after_fallback x \<noteq> W_tryFallback y p" "after_send x \<noteq> W_tryFallback y p"
  by (cases x; simp)+

lemma after_success [simp]:
  "(after_fallback x = W_Success) = (\<exists>e. x = Failure e)" "after_send x \<noteq> W_Success"
  by (cases x; simp)+

lemma resolves_w_Go: "GetCircuit c = None \<Longrightarrow> resolves_w c (Go c)"
  by (simp add: resolves_w_def Go_def)

lemma resolves_d_Go: "GetCircuit c = None \<Longrightarrow> resolves_d (Go c)"
  by (simp add: resolves_d_def Go_def)

text \<open>A step of another activity that reports no event of the worker keeps \<open>resolves_w\<close>.\<close>

lemma resolves_w_frame:
  assumes "resolves_w c s" "wpc s' = wpc s"
    and "fallbackOnce s = Completed \<longrightarrow> fallbackOnce s' = Completed"
    and "set (events s) \<subseteq> set (events s')"
    and "''short-circuit'' \<in> set (events s') \<longrightarrow> ''short-circuit'' \<in> set (events s)"
    and "''rejected'' \<in> set (events s') \<longrightarrow> ''rejected'' \<in> set (events s)"
    and "''failure'' \<in> set (events s') \<longrightarrow> ''failure'' \<in> set (events s)"
  shows "resolves_w c s'"
  unfolding resolves_w_def
proof (intro conjI impI)
  assume "''short-circuit'' \<in> set (events s') \<or> ''rejected'' \<in> set (events s') \<or> ''failure'' \<in> set (events s')"
  with assms(5-7) have "''short-circuit'' \<in> set (events s) \<or> ''rejected'' \<in> set (events s) \<or> ''failure'' \<in> set (events s)"
    by blast
  with assms(1) have "w_in_fallback (wpc s) \<or> fallbackOnce s = Completed"
    by (simp add: resolves_w_def)
  with assms(2,3) show "w_in_fallback (wpc s') \<or> fallbackOnce s' = Completed" by auto
next
  assume "w_after (wpc s')"
  with assms(1,2) have "fallbackOnce s = Completed \<or> (run c = None \<and> ''success'' \<in> set (events s))"
    by (simp add: resolves_w_def)
  with assms(3,4) show "fallbackOnce s' = Completed \<or> (run c = None \<and> ''success'' \<in> set (events s'))"
    by auto
next
  assume "wpc s' = W_Success"
  with assms(1,2) have "run c = None \<or> fallbackOnce s = Completed" by (simp add: resolves_w_def)
  with assms(3) show "run c = None \<or> fallbackOnce s' = Completed" by auto
next
  assume "w_sending (wpc s') \<noteq> None"
  with assms(1,2) have "fallbackOnce s = Completed" by (simp add: resolves_w_def)
  with assms(3) show "fallbackOnce s' = Completed" by simp
qed

lemma resolves_d_frame:
  assumes "resolves_d s" "dpc s' = dpc s"
    and "fallbackOnce s = Completed \<longrightarrow> fallbackOnce s' = Completed"
    and "''timeout'' \<in> set (events s') \<longrightarrow> ''timeout'' \<in> set (events s)"
  shows "resolves_d s'"
  unfolding resolves_d_def
proof
  assume "''timeout'' \<in> set (events s')"
  with assms(4) have "''timeout'' \<in> set (events s)" by simp
  with assms(1) have "d_in_fallback (dpc s) \<or> fallbackOnce s = Completed"
    by (simp add: resolves_d_def)
  with assms(2,3) show "d_in_fallback (dpc s') \<or> fallbackOnce s' = Completed" by auto
qed

lemma resolves_w_worker:
  assumes "locks s" "guard s" "tickets_inv c s" "resolves_d s" "resolves_w c s"
  shows "pred_option (resolves_w c) (worker c (wpc s) s)"
proof (cases "wpc s")
  case (W_tryFallback x p)
  with assms(5) show ?thesis
    by (cases p; cases x)
       (auto simp: resolves_w_def ReportEvent_def split: once.splits option.splits)
next
  case (W_SetStop runErr)
  with tickets_path[OF assms(3)] assms(5) show ?thesis
    by (cases runErr) (auto simp: resolves_w_def)
next
  case (W_Report x)
  with assms(5) show ?thesis by (cases x) (auto simp: resolves_w_def ReportEvent_def)
next
  case (W_Send x err)
  with assms(5) show ?thesis by (cases x) (auto simp: resolves_w_def)
next
  case W_IfStop_open
  with stopped_by_deadline[OF assms(1,2)] assms(4,5) show ?thesis
    by (cases "stop s") (auto simp: resolves_w_def resolves_d_def)
next
  case (W_IfStop runErr)
  with stopped_by_deadline[OF assms(1,2)] assms(4,5) show ?thesis
    by (cases "stop s") (auto simp: resolves_w_def resolves_d_def)
qed (use assms(5) in \<open>auto simp: resolves_w_def ReportEvent_def\<close>)

lemma resolves_w_deadline:
  assumes "resolves_w c s"
  shows "pred_option (resolves_w c) (deadline c timer (dpc s) s)"
proof (cases timer)
  case True
  then show ?thesis
    by (cases "dpc s") (auto intro!: resolves_w_frame[OF assms])
next
  case False
  show ?thesis
  proof (cases "dpc s")
    case (D_tryFallback p)
    with False show ?thesis
      by (cases p)
         (auto intro!: resolves_w_frame[OF assms] simp: ReportEvent_def
               split: once.splits option.splits)
  qed (use False in \<open>auto intro!: resolves_w_frame[OF assms] simp: ReportEvent_def Return_def
         split: list.splits\<close>)
qed

lemma resolves_d_worker:
  assumes "resolves_d s"
  shows "pred_option resolves_d (worker c (wpc s) s)"
proof (cases "wpc s")
  case (W_tryFallback x p)
  then show ?thesis
    by (cases p)
       (auto intro!: resolves_d_frame[OF assms] simp: ReportEvent_def
             split: once.splits option.splits)
next
  case (W_SetStop runErr)
  then show ?thesis by (cases runErr) (auto intro!: resolves_d_frame[OF assms])
qed (auto intro!: resolves_d_frame[OF assms] simp: ReportEvent_def)

lemma resolves_d_deadline:
  assumes "resolves_d s"
  shows "pred_option resolves_d (deadline c timer (dpc s) s)"
proof (cases timer)
  case True
  with assms show ?thesis by (cases "dpc s") (auto simp: resolves_d_def)
next
  case False
  show ?thesis
  proof (cases "dpc s")
    case (D_tryFallback p)
    with assms False show ?thesis
      by (cases p)
         (auto simp: resolves_d_def ReportEvent_def split: once.splits option.splits)
  qed (use assms False in \<open>auto simp: resolves_d_def ReportEvent_def Return_def
         split: list.splits\<close>)
qed

lemma resolves_w_step:
  assumes "locks s" "guard s" "tickets_inv c s" "resolves_d s" "resolves_w c s"
  shows "pred_option (resolves_w c) (step c a s)"
proof (cases a)
  case Worker
  with resolves_w_worker[OF assms] show ?thesis by simp
next
  case Deadline
  with resolves_w_deadline[OF assms(5)] show ?thesis by simp
next
  case Timer
  with resolves_w_deadline[OF assms(5)] show ?thesis by simp
next
  case Recv_done
  then show ?thesis by (auto intro!: resolves_w_frame[OF assms(5)])
next
  case Recv_err
  then show ?thesis by (auto intro!: resolves_w_frame[OF assms(5)] split: list.splits)
qed

lemma resolves_d_step:
  assumes "resolves_d s"
  shows "pred_option resolves_d (step c a s)"
proof (cases a)
  case Worker
  with resolves_d_worker[OF assms] show ?thesis by simp
next
  case Deadline
  with resolves_d_deadline[OF assms] show ?thesis by simp
next
  case Timer
  with resolves_d_deadline[OF assms] show ?thesis by simp
next
  case Recv_done
  then show ?thesis by (auto intro!: resolves_d_frame[OF assms])
next
  case Recv_err
  then show ?thesis by (auto intro!: resolves_d_frame[OF assms] split: list.splits)
qed

lemma reporting_in_once:
  "w_reporting_success p \<Longrightarrow> w_in_once p" "d_reporting_success q \<Longrightarrow> d_in_once q"
  by (cases p rule: w_reporting_success.cases; simp)
     (cases q rule: d_reporting_success.cases; simp)

lemma not_reporting [simp]:
  "\<not> w_in_once p \<Longrightarrow> \<not> w_reporting_success p" "\<not> d_in_once q \<Longrightarrow> \<not> d_reporting_success q"
  using reporting_in_once by blast+

lemma after_signalled [simp]:
  "w_signalled (after_fallback x)" "w_signalled (after_send x)"
  "\<not> w_reporting_success (after_fallback x)" "\<not> w_reporting_success (after_send x)"
  "after_fallback x \<noteq> W_Exit" "after_send x \<noteq> W_Exit"
  by (cases x; simp)+

lemma channels_Go: "GetCircuit c = None \<Longrightarrow> channels c (Go c)"
  by (simp add: channels_def sent_r_def sent_f_def Go_def)

lemma channels_worker:
  assumes "locks s" "tickets_inv c s" "once_inv c s" "channels c s"
  shows "pred_option (channels c) (worker c (wpc s) s)"
proof (cases "wpc s")
  case (W_tryFallback x p)
  with locks_excl(2,3)[OF assms(1)] tickets_path[OF assms(2)] once_frame_w[OF assms(3)] assms(4)
  show ?thesis
    by (cases p; cases x)
       (auto simp: channels_def sent_r_def sent_f_def ReportEvent_def fb_free_def
             dest: reporting_in_once split: once.splits option.splits)
next
  case (W_SetStop runErr)
  with tickets_path[OF assms(2)] assms(4) show ?thesis
    by (cases runErr) (auto simp: channels_def sent_r_def sent_f_def)
next
  case (W_Report x)
  with tickets_path[OF assms(2)] assms(4) show ?thesis
    by (cases x) (auto simp: channels_def sent_r_def sent_f_def ReportEvent_def)
next
  case (W_Send x err)
  with tickets_path[OF assms(2)] assms(4) show ?thesis
    by (cases x) (auto simp: channels_def sent_r_def sent_f_def)
next
  case (W_UnlockTicket got)
  with tickets_path[OF assms(2)] assms(4) show ?thesis
    by (cases got) (auto simp: channels_def sent_r_def sent_f_def)
qed (use tickets_path[OF assms(2)] assms(4) in
      \<open>auto simp: channels_def sent_r_def sent_f_def ReportEvent_def\<close>)

lemma channels_deadline:
  assumes "locks s" "once_inv c s" "channels c s"
  shows "pred_option (channels c) (deadline c timer (dpc s) s)"
proof (cases timer)
  case True
  with assms(3) show ?thesis
    by (cases "dpc s") (auto simp: channels_def sent_r_def sent_f_def)
next
  case False
  show ?thesis
  proof (cases "dpc s")
    case (D_tryFallback p)
    with locks_excl(2,3)[OF assms(1)] once_frame_d[OF assms(2)] assms(3) False show ?thesis
      by (cases p)
         (auto simp: channels_def sent_r_def sent_f_def ReportEvent_def fb_free_def
               dest: reporting_in_once split: once.splits option.splits)
  next
    case D_Select
    with assms(3) False show ?thesis
      by (cases "finished s") (auto simp: channels_def sent_r_def sent_f_def)
  qed (use assms(3) False in \<open>auto simp: channels_def sent_r_def sent_f_def
         ReportEvent_def Return_def\<close>)
qed

lemma channels_step:
  assumes "locks s" "tickets_inv c s" "once_inv c s" "channels c s"
  shows "pred_option (channels c) (step c a s)"
proof (cases a)
  case Worker
  with channels_worker[OF assms] show ?thesis by simp
next
  case Deadline
  with channels_deadline[OF assms(1,3,4)] show ?thesis by simp
next
  case Timer
  with channels_deadline[OF assms(1,3,4)] show ?thesis by simp
next
  case Recv_done
  with assms(4) show ?thesis by (auto simp: channels_def sent_r_def sent_f_def)
next
  case Recv_err
  with assms(4) show ?thesis
    by (auto simp: channels_def sent_r_def sent_f_def split: list.splits)
qed

section \<open>The invariants hold along every interleaving\<close>

lemma invariant_Go: "GetCircuit c = None \<Longrightarrow> invariant c (Go c)"
  by (simp add: invariant_def locks_Go guard_Go tickets_Go runs_Go returned_Go events_Go exits_Go
      once_Go single_Go origin_Go flight_Go resolves_d_Go resolves_w_Go channels_Go)

lemma pred_option_conj:
  "pred_option P x \<Longrightarrow> pred_option Q x \<Longrightarrow> pred_option (\<lambda>s. P s \<and> Q s) x"
  by (cases x) simp_all

lemma invariant_step:
  assumes "invariant c s"
  shows "pred_option (invariant c) (step c a s)"
proof -
  from assms have i: "locks s" "guard s" "tickets_inv c s" "runs_inv c s" "returned_inv s"
    "events_inv c s" "exits_inv c s" "once_inv c s" "origin_inv c s" "flight_inv c s"
    "resolves_d s" "resolves_w c s" "channels c s" "single_inv c s"
    by (simp_all add: invariant_def)
  show ?thesis
  proof (cases "step c a s")
    case None
    then show ?thesis by simp
  next
    case (Some s')
    with locks_step[OF i(1), of c a] guard_step[OF i(1,2), of c a]
      tickets_step[OF i(3,5), of a] runs_step[OF i(3,4), of a] returned_step[OF i(5), of c a]
      events_step[OF i(3,6), of a] exits_step[OF i(1,2,3,7), of a] once_step[OF i(1,8), of a]
      origin_step[OF i(2,3,8,9), of a] flight_step[OF i(1,8,10), of a]
      resolves_d_step[OF i(11), of c a] resolves_w_step[OF i(1,2,3,11,12), of a]
      channels_step[OF i(1,3,8,13), of a] single_step[OF i(1,8,14), of a]
    show ?thesis by (simp add: invariant_def)
  qed
qed

lemma invariant_exec:
  assumes "invariant c s" "exec c sched s = Some s'"
  shows "invariant c s'"
  using assms
proof (induction sched arbitrary: s)
  case Nil
  then show ?case by simp
next
  case (Cons a as)
  show ?case
  proof (cases "step c a s")
    case None
    with Cons.prems(2) show ?thesis by simp
  next
    case (Some s1)
    with invariant_step[OF Cons.prems(1), of a] have "invariant c s1" by simp
    moreover from Cons.prems(2) Some have "exec c as s1 = Some s'" by simp
    ultimately show ?thesis by (rule Cons.IH)
  qed
qed

lemma invariant_reachable:
  assumes "GetCircuit c = None" "exec c sched (Go c) = Some s"
  shows "invariant c s"
  using invariant_exec[OF invariant_Go[OF assms(1)] assms(2)] .

section \<open>Every interleaving is finite\<close>

lemma after_rank [simp]: "wrank (after_fallback x) \<le> 3" "wrank (after_send x) \<le> 2"
  by (cases x; simp)+

lemma after_rank_less [simp]:
  "wrank (after_fallback x) < 4" "wrank (after_fallback x) < 8" "wrank (after_send x) < 3"
  by (cases x; simp)+

lemma worker_decreases:
  "pred_option (\<lambda>s'. remaining s' < remaining s) (worker c (wpc s) s)"
proof (cases "wpc s")
  case (W_tryFallback x p)
  then show ?thesis
    by (cases p)
       (auto simp: remaining_def ReportEvent_def split: once.splits option.splits)
next
  case (W_SetStop runErr)
  then show ?thesis by (cases runErr) (auto simp: remaining_def)
qed (auto simp: remaining_def ReportEvent_def)

lemma deadline_decreases:
  "pred_option (\<lambda>s'. remaining s' < remaining s) (deadline c timer (dpc s) s)"
proof (cases timer)
  case True
  then show ?thesis by (cases "dpc s") (auto simp: remaining_def)
next
  case False
  show ?thesis
  proof (cases "dpc s")
    case (D_tryFallback p)
    with False show ?thesis
      by (cases p)
         (auto simp: remaining_def ReportEvent_def split: once.splits option.splits)
  qed (use False in \<open>auto simp: remaining_def ReportEvent_def Return_def split: list.splits\<close>)
qed

lemma step_decreases: "pred_option (\<lambda>s'. remaining s' < remaining s) (step c a s)"
proof (cases a)
  case Worker
  with worker_decreases[of s c] show ?thesis by simp
next
  case Deadline
  with deadline_decreases[of s c False] show ?thesis by simp
next
  case Timer
  with deadline_decreases[of s c True] show ?thesis by simp
next
  case Recv_done
  then show ?thesis by (auto simp: remaining_def)
next
  case Recv_err
  then show ?thesis by (auto simp: remaining_def split: list.splits)
qed

lemma exec_bounded:
  assumes "exec c sched s = Some s'"
  shows "length sched + remaining s' \<le> remaining s"
  using assms
proof (induction sched arbitrary: s)
  case Nil
  then show ?case by simp
next
  case (Cons a as)
  show ?case
  proof (cases "step c a s")
    case None
    with Cons.prems show ?thesis by simp
  next
    case (Some s1)
    with step_decreases[of s c a] have "remaining s1 < remaining s" by simp
    moreover from Cons.prems Some have "exec c as s1 = Some s'" by simp
    from Cons.IH[OF this] have "length as + remaining s' \<le> remaining s1" .
    ultimately show ?thesis by simp
  qed
qed

lemma remaining_Go: "GetCircuit c = None \<Longrightarrow> remaining (Go c) = 36"
  by (simp add: remaining_def Go_def)

lemma exec_length:
  assumes "GetCircuit c = None" "exec c sched (Go c) = Some s"
  shows "length sched \<le> 36"
  using exec_bounded[OF assms(2)] remaining_Go[OF assms(1)] by simp

section \<open>No interleaving gets stuck\<close>

lemma invariantD:
  assumes "invariant c s"
  shows "locks s" "guard s" "tickets_inv c s" "runs_inv c s" "returned_inv s"
    "events_inv c s" "exits_inv c s" "once_inv c s" "origin_inv c s" "flight_inv c s"
    "resolves_d s" "resolves_w c s" "channels c s" "single_inv c s"
  using assms by (simp_all add: invariant_def)

text \<open>A value on its way to the caller means that the once guard is completed with an error.\<close>

lemma cnt_simps [simp]: "(0 < cnt x) = (x \<noteq> None)" "(cnt x = 0) = (x = None)" "cnt x \<le> 1"
  by (cases x; simp)+

lemma events_path:
  assumes "events_inv c s" "e \<in> set (events s)"
  shows "path_event c e"
  using assms by (simp add: events_inv_def list_all_iff)

lemma events_success:
  assumes "events_inv c s" "''success'' \<in> set (events s)"
  shows "AllowRequest c" "0 < Tickets c"
  using events_path[OF assms] by (simp_all add: path_event_def)

lemma events_failure:
  assumes "events_inv c s" "''failure'' \<in> set (events s)"
  shows "AllowRequest c" "0 < Tickets c" "run c \<noteq> None"
  using events_path[OF assms] by (simp_all add: path_event_def)

lemma events_rejected:
  assumes "events_inv c s" "''rejected'' \<in> set (events s)"
  shows "AllowRequest c" "Tickets c = 0"
  using events_path[OF assms] by (simp_all add: path_event_def)

lemma events_short_circuit:
  assumes "events_inv c s" "''short-circuit'' \<in> set (events s)"
  shows "\<not> AllowRequest c"
  using events_path[OF assms] by (simp add: path_event_def)

lemma flight_error:
  assumes "flight_inv c s" "0 < in_flight s"
  shows "fallbackOnce s = Completed" "resolution c (hd (resolved s)) \<noteq> None"
  using assms by (auto simp: flight_inv_def)

lemma settled_success:
  assumes "once_inv c s" "fallbackOnce s = Completed" "''fallback-success'' \<in> set (events s)"
  shows "resolution c (hd (resolved s)) = None"
  using assms by (auto simp: once_inv_def settled_def resolution_def fb_free_def split: option.splits)

text \<open>
  The caller has taken no error while a signal on \<open>done\<close> has been sent by \<open>f\<close> or is
  about to be: the fallback has returned \<open>nil\<close> then.
\<close>

lemma no_error_taken:
  assumes "locks s" "once_inv c s" "flight_inv c s"
    and "''fallback-success'' \<in> set (events s) \<or> w_in_once (wpc s) \<or> d_in_once (dpc s)"
  shows "got_error (received s) = None"
proof (rule ccontr)
  assume "got_error (received s) \<noteq> None"
  then have "0 < in_flight s" by (cases "got_error (received s)") (simp_all add: in_flight_def)
  from flight_error[OF assms(3) this] have c: "fallbackOnce s = Completed"
    and r: "resolution c (hd (resolved s)) \<noteq> None" .
  from c locks_excl(3)[OF assms(1)] have "\<not> w_in_once (wpc s)" "\<not> d_in_once (dpc s)" by auto
  with assms(4) have "''fallback-success'' \<in> set (events s)" by blast
  from settled_success[OF assms(2) c this] r show False by simp
qed

lemma got_error_None: "got_error r = None \<Longrightarrow> r = None \<or> r = Some None"
  by (cases r rule: got_error.cases) simp_all

lemma done_room_worker:
  assumes "locks s" "tickets_inv c s" "once_inv c s" "flight_inv c s" "channels c s"
    and "wpc s = W_Do_done" "0 < doneChan s"
  shows "via_Do c \<and> received s = None"
proof -
  from tickets_path[OF assms(2)] assms(6) have v: "via_Do c" by simp
  from assms(5,6,7) have f: "sent_f c s = 1" and n: "received s \<noteq> Some None"
    by (auto simp: channels_def sent_r_def sent_f_def split: if_splits)
  from f have "''fallback-success'' \<in> set (events s) \<or> d_in_once (dpc s)"
    using assms(6) by (auto simp: sent_f_def dest: reporting_in_once split: if_splits)
  then have "''fallback-success'' \<in> set (events s) \<or> w_in_once (wpc s) \<or> d_in_once (dpc s)"
    by blast
  from got_error_None[OF no_error_taken[OF assms(1,3,4) this]] n v show ?thesis by simp
qed

lemma done_room_frame:
  assumes "locks s" "tickets_inv c s" "once_inv c s" "flight_inv c s" "channels c s"
    and "(\<exists>x. wpc s = W_tryFallback x F_Do_done) \<or> dpc s = D_tryFallback F_Do_done"
    and "0 < doneChan s"
  shows "via_Do c \<and> received s = None"
proof -
  from assms(6) have o: "w_in_once (wpc s) \<or> d_in_once (dpc s)" by auto
  from assms(6) once_frame_w[OF assms(3)] once_frame_d[OF assms(3)]
  have v: "via_Do c" and e: "''fallback-success'' \<notin> set (events s)"
    by (auto simp: fb_free_def)
  from assms(6) locks_excl(2)[OF assms(1)]
  have "\<not> w_reporting_success (wpc s)" "\<not> d_reporting_success (dpc s)"
    by (auto dest: reporting_in_once)
  with e have "sent_f c s = 0" by (simp add: sent_f_def)
  with assms(5,7) have n: "received s \<noteq> Some None"
    by (auto simp: channels_def sent_r_def split: if_splits)
  from o have "''fallback-success'' \<in> set (events s) \<or> w_in_once (wpc s) \<or> d_in_once (dpc s)"
    by blast
  from got_error_None[OF no_error_taken[OF assms(1,3,4) this]] n v show ?thesis by simp
qed

lemma send_room:
  assumes "flight_inv c s" "w_sending (wpc s) \<noteq> None \<or> d_sending (dpc s) \<noteq> None"
  shows "errChan s = []"
proof -
  from assms(2) have "0 < cnt (w_sending (wpc s)) + cnt (d_sending (dpc s))"
    by (cases "w_sending (wpc s)"; cases "d_sending (dpc s)") simp_all
  moreover from assms(1) have "in_flight s \<le> 1"
    by (cases "resolution c (hd (resolved s))") (auto simp: flight_inv_def)
  ultimately show ?thesis by (cases "errChan s") (auto simp: in_flight_def)
qed

lemma worker_progress:
  assumes "invariant c s" "wpc s \<noteq> W_Exit"
    and "\<not> w_waits (wpc s) (stopMutex s) (ticketMutex s) (fallbackOnce s)"
  shows "step c Worker s \<noteq> None \<or> step c Recv_done s \<noteq> None"
proof -
  note i = invariantD[OF assms(1)]
  show ?thesis
  proof (cases "wpc s")
    case W_Do_done
    with done_room_worker[OF i(1,3,8,10,13)] show ?thesis by (cases "doneChan s") auto
  next
    case (W_tryFallback x p)
    show ?thesis
    proof (cases p)
      case F_Do_done
      with W_tryFallback done_room_frame[OF i(1,3,8,10,13)] show ?thesis
        by (cases "doneChan s") auto
    next
      case F_Once
      with W_tryFallback assms(3) show ?thesis
        by (cases "fallbackOnce s") (auto split: option.splits)
    qed (use W_tryFallback in \<open>auto split: option.splits\<close>)
  next
    case (W_Send x err)
    with send_room[OF i(10)] show ?thesis by auto
  next
    case W_Finished
    with i(13) show ?thesis by (auto simp: channels_def)
  next
    case (W_SetStop runErr)
    then show ?thesis by (cases runErr) auto
  qed (use assms(2,3) in auto)
qed

lemma deadline_progress:
  assumes "invariant c s" "dpc s \<noteq> D_Exit"
    and "\<not> d_waits (dpc s) (stopMutex s) (ticketMutex s) (fallbackOnce s)"
  shows "step c Deadline s \<noteq> None \<or> step c Timer s \<noteq> None \<or> step c Recv_done s \<noteq> None"
proof -
  note i = invariantD[OF assms(1)]
  show ?thesis
  proof (cases "dpc s")
    case (D_tryFallback p)
    show ?thesis
    proof (cases p)
      case F_Do_done
      with D_tryFallback done_room_frame[OF i(1,3,8,10,13)] show ?thesis
        by (cases "doneChan s") auto
    next
      case F_Once
      with D_tryFallback assms(3) show ?thesis
        by (cases "fallbackOnce s") (auto split: option.splits)
    qed (use D_tryFallback in \<open>auto split: option.splits\<close>)
  next
    case (D_Send err)
    with send_room[OF i(10)] show ?thesis by auto
  qed (use assms(2,3) in auto)
qed

lemma waits_excl:
  assumes "locks s" "w_waits (wpc s) (stopMutex s) (ticketMutex s) (fallbackOnce s)"
  shows "\<not> d_waits (dpc s) (stopMutex s) (ticketMutex s) (fallbackOnce s) \<and> dpc s \<noteq> D_Exit"
  using assms
  by (cases "(wpc s, stopMutex s, ticketMutex s, fallbackOnce s)" rule: w_waits.cases;
      cases "(dpc s, stopMutex s, ticketMutex s, fallbackOnce s)" rule: d_waits.cases)
     (auto simp: locks_def)

lemma exit_no_wait:
  assumes "locks s" "wpc s = W_Exit"
  shows "\<not> d_waits (dpc s) (stopMutex s) (ticketMutex s) (fallbackOnce s)"
  using assms
  by (cases "(dpc s, stopMutex s, ticketMutex s, fallbackOnce s)" rule: d_waits.cases)
     (auto simp: locks_def)

lemma progress:
  assumes "invariant c s" "wpc s \<noteq> W_Exit \<or> dpc s \<noteq> D_Exit"
  shows "step c Worker s \<noteq> None \<or> step c Deadline s \<noteq> None \<or> step c Timer s \<noteq> None
         \<or> step c Recv_done s \<noteq> None"
proof (cases "wpc s = W_Exit")
  case True
  with assms(2) have "dpc s \<noteq> D_Exit" by simp
  from deadline_progress[OF assms(1) this exit_no_wait[OF invariantD(1)[OF assms(1)] True]]
  show ?thesis by blast
next
  case False
  show ?thesis
  proof (cases "w_waits (wpc s) (stopMutex s) (ticketMutex s) (fallbackOnce s)")
    case True
    from waits_excl[OF invariantD(1)[OF assms(1)] True]
    have "\<not> d_waits (dpc s) (stopMutex s) (ticketMutex s) (fallbackOnce s)" "dpc s \<noteq> D_Exit"
      by simp_all
    from deadline_progress[OF assms(1) this(2,1)] show ?thesis by blast
  next
    case w: False
    from worker_progress[OF assms(1) False w] show ?thesis by blast
  qed
qed

text \<open>Once both activities have ended, the \<open>select\<close> of \<open>Do\<close> finds a value.\<close>

lemma Do_can_return:
  assumes "invariant c s" "via_Do c" "wpc s = W_Exit" "dpc s = D_Exit" "received s = None"
  shows "0 < doneChan s \<or> errChan s \<noteq> []"
proof -
  note i = invariantD[OF assms(1)]
  from i(12) assms(3)
  have "fallbackOnce s = Completed \<or> (run c = None \<and> ''success'' \<in> set (events s))"
    by (simp add: resolves_w_def)
  then show ?thesis
  proof
    assume c: "fallbackOnce s = Completed"
    show ?thesis
    proof (cases "resolution c (hd (resolved s))")
      case None
      with i(8) c have "''fallback-success'' \<in> set (events s)"
        by (auto simp: once_inv_def settled_def resolution_def split: option.splits)
      with assms(2) have "sent_f c s = 1" by (simp add: sent_f_def)
      with i(13) assms(5) show ?thesis by (simp add: channels_def)
    next
      case (Some e)
      with i(10) c assms(3,4,5) show ?thesis
        by (auto simp: flight_inv_def in_flight_def)
    qed
  next
    assume "run c = None \<and> ''success'' \<in> set (events s)"
    with events_success[OF i(6)] have "run c = None" "AllowRequest c" "0 < Tickets c"
      by simp_all
    with assms(2,3) have "sent_r c s = 1" by (simp add: sent_r_def)
    with i(13) assms(5) show ?thesis by (simp add: channels_def)
  qed
qed

section \<open>Facts about reachable states used by several properties\<close>

lemma guard_excl:
  assumes "guard s" "''timeout'' \<in> set (events s)"
  shows "''failure'' \<notin> set (events s)" "''success'' \<notin> set (events s)"
    "''short-circuit'' \<notin> set (events s)"
  using assms by (auto simp: guard_def w_reported_def d_reported_def)

lemma carried_resolution:
  assumes "once_inv c s" "flight_inv c s"
    and "e \<in> set (errChan s) \<or> received s = Some (Some e)"
  shows "fallbackOnce s = Completed \<and> (\<exists>r. resolved s = [r] \<and> resolution c r = Some e)"
proof -
  from assms(3) have m: "e \<in> carried s" by (auto simp: carried_def)
  from assms(3) have "0 < in_flight s"
    by (cases "errChan s") (auto simp: in_flight_def)
  from flight_error(1)[OF assms(2) this] have c: "fallbackOnce s = Completed" .
  with assms(2) m have r: "resolution c (hd (resolved s)) = Some e" by (simp add: flight_inv_def)
  from assms(1) c have "length (resolved s) = 1" by (simp add: once_inv_def)
  then have "resolved s = [hd (resolved s)]" by (cases "resolved s") simp_all
  with r c show ?thesis by blast
qed

lemma carry_bound:
  assumes "flight_inv c s"
  shows "length (errChan s) + cnt (got_error (received s)) \<le> 1"
proof -
  from assms have "in_flight s \<le> 1"
    by (cases "resolution c (hd (resolved s))") (auto simp: flight_inv_def)
  then show ?thesis by (simp add: in_flight_def)
qed

lemma resolved_origin:
  assumes "origin_inv c s" "r \<in> set (resolved s)"
  shows "origin c (events s) r"
  using assms by (simp add: origin_inv_def list_all_iff)

lemma completed_resolved:
  assumes "once_inv c s" "fallbackOnce s = Completed"
  shows "\<exists>r. resolved s = [r] \<and> settled c (fallback_calls s) (events s) r"
proof -
  from assms have l: "length (resolved s) = 1"
    and t: "settled c (fallback_calls s) (events s) (hd (resolved s))"
    by (simp_all add: once_inv_def)
  from l have "resolved s = [hd (resolved s)]" by (cases "resolved s") simp_all
  with t show ?thesis by blast
qed

lemma deadline_keeps_worker:
  "pred_option (\<lambda>s'. wpc s' = wpc s \<and> runs s' = runs s) (deadline c timer (dpc s) s)"
proof (cases timer)
  case True
  then show ?thesis by (cases "dpc s") auto
next
  case False
  show ?thesis
  proof (cases "dpc s")
    case (D_tryFallback p)
    with False show ?thesis
      by (cases p) (auto simp: ReportEvent_def split: once.splits option.splits)
  qed (use False in \<open>auto simp: ReportEvent_def Return_def split: list.splits\<close>)
qed

lemma others_keep_worker:
  assumes "a \<noteq> Worker"
  shows "pred_option (\<lambda>s'. wpc s' = wpc s \<and> runs s' = runs s) (step c a s)"
proof (cases a)
  case Worker
  with assms show ?thesis by simp
next
  case Deadline
  with deadline_keeps_worker[of s c False] show ?thesis by simp
next
  case Timer
  with deadline_keeps_worker[of s c True] show ?thesis by simp
next
  case Recv_done
  then show ?thesis by auto
next
  case Recv_err
  then show ?thesis by (auto split: list.splits)
qed

lemma fb_events_free: "fb_free es \<Longrightarrow> fb_events es = []"
  by (auto simp: fb_free_def fb_events_def filter_empty_conv)

lemma fb_events_one:
  assumes "length (fb_events es) = 1"
  shows "''fallback-failure'' \<notin> set es \<Longrightarrow> fb_events es = [''fallback-success'']"
    and "''fallback-success'' \<notin> set es \<Longrightarrow> fb_events es = [''fallback-failure'']"
proof -
  from assms obtain x where x: "fb_events es = [x]" by (cases "fb_events es") simp_all
  then have "x \<in> set (fb_events es)" by simp
  then have m: "x \<in> set es" "x = ''fallback-success'' \<or> x = ''fallback-failure''"
    by (simp_all add: fb_events_def)
  from m x show "''fallback-failure'' \<notin> set es \<Longrightarrow> fb_events es = [''fallback-success'']"
    by auto
  from m x show "''fallback-success'' \<notin> set es \<Longrightarrow> fb_events es = [''fallback-failure'']"
    by auto
qed

lemma delivered_length:
  "length (delivered s) = length (errChan s) + cnt (got_error (received s))"
  by (cases "got_error (received s)") (simp_all add: delivered_def)

lemma delivered_carried: "set (delivered s) \<subseteq> carried s"
  by (cases "got_error (received s)") (auto simp: delivered_def carried_def)

lemma delivered_resolution:
  assumes "flight_inv c s" "fallbackOnce s = Completed" "resolved s = [e]"
  shows "resolution c e = None \<Longrightarrow> delivered s = []"
    and "resolution c e = Some v \<Longrightarrow> set (delivered s) \<subseteq> {v}"
    and "resolution c e = Some v \<Longrightarrow> w_sending (wpc s) = None \<Longrightarrow> d_sending (dpc s) = None
         \<Longrightarrow> delivered s = [v]"
proof -
  from assms have n: "in_flight s = cnt (resolution c e)"
    and m: "\<And>x. x \<in> carried s \<Longrightarrow> resolution c e = Some x"
    by (simp_all add: flight_inv_def)
  have l: "length (delivered s) \<le> in_flight s"
    by (simp add: delivered_length in_flight_def)
  from n l show "resolution c e = None \<Longrightarrow> delivered s = []" by simp
  from m delivered_carried[of s] show s: "resolution c e = Some v \<Longrightarrow> set (delivered s) \<subseteq> {v}"
    by auto
  assume r: "resolution c e = Some v" and w: "w_sending (wpc s) = None" "d_sending (dpc s) = None"
  from n r w have "length (delivered s) = 1" by (simp add: delivered_length in_flight_def)
  then obtain x where "delivered s = [x]" by (cases "delivered s") simp_all
  with s[OF r] show "delivered s = [v]" by simp
qed

lemma completed_facts:
  assumes "once_inv c s" "single_inv c s" "fallbackOnce s = Completed" "resolved s = [e]"
  shows "fallback c = None \<Longrightarrow> fallback_calls s = [] \<and> fb_events (events s) = []"
    and "fallback c = Some f \<Longrightarrow> f e = None
         \<Longrightarrow> fallback_calls s = [e] \<and> fb_events (events s) = [''fallback-success'']"
    and "fallback c = Some f \<Longrightarrow> f e = Some fe
         \<Longrightarrow> fallback_calls s = [e] \<and> fb_events (events s) = [''fallback-failure'']"
proof -
  from assms(1,3,4) have t: "settled c (fallback_calls s) (events s) e"
    by (simp add: once_inv_def)
  from t show "fallback c = None \<Longrightarrow> fallback_calls s = [] \<and> fb_events (events s) = []"
    by (simp add: settled_def fb_events_free)
  have l: "length (fb_events (events s)) = 1" if "fallback c = Some f" for f
    using assms(2,3) that by (simp add: single_inv_def)
  from t l[of f] show "fallback c = Some f \<Longrightarrow> f e = None
      \<Longrightarrow> fallback_calls s = [e] \<and> fb_events (events s) = [''fallback-success'']"
    by (simp add: settled_def fb_events_one(1))
  from t l[of f] show "fallback c = Some f \<Longrightarrow> f e = Some fe
      \<Longrightarrow> fallback_calls s = [e] \<and> fb_events (events s) = [''fallback-failure'']"
    by (simp add: settled_def fb_events_one(2))
qed

lemma fallback_failed_names:
  "sublist (verb_v fallbackErr) (Error (fallback_failed fallbackErr err))"
  "sublist (verb_v err) (Error (fallback_failed fallbackErr err))"
proof -
  show "sublist (verb_v fallbackErr) (Error (fallback_failed fallbackErr err))"
    unfolding fallback_failed_def Error.simps sublist_def
    by (intro exI[of _ "''fallback failed with '' @ [CHR 0x27]"]
              exI[of _ "[CHR 0x27] @ ''. run error was '' @ [CHR 0x27] @ verb_v err @ [CHR 0x27]"])
       simp
  show "sublist (verb_v err) (Error (fallback_failed fallbackErr err))"
    unfolding fallback_failed_def Error.simps sublist_def
    by (intro exI[of _ "''fallback failed with '' @ [CHR 0x27] @ verb_v fallbackErr @ [CHR 0x27]
                        @ ''. run error was '' @ [CHR 0x27]"]
              exI[of _ "[CHR 0x27]"])
       simp
qed

text \<open>
  When \<open>Do\<close> has returned \<open>nil\<close> it has taken a signal from \<open>done\<close>: the operation has run
  and returned \<open>nil\<close> (line 165), or the fallback has been called and has returned \<open>nil\<close>
  (line 175).
\<close>

lemma done_taken:
  assumes "runs_inv c s" "once_inv c s" "single_inv c s" "channels c s" "received s = Some None"
  shows "via_Do c
       \<and> ((run c = None \<and> runs s = 1)
          \<or> (\<exists>f e. fallback c = Some f \<and> resolved s = [e] \<and> f e = None))"
proof -
  from assms(4,5) have "doneChan s + 1 = sent_r c s + sent_f c s" by (simp add: channels_def)
  then have k: "0 < sent_r c s + sent_f c s" by arith
  then have v: "via_Do c" by (auto simp: sent_r_def sent_f_def split: if_splits)
  have f: "\<exists>f e. fallback c = Some f \<and> resolved s = [e] \<and> f e = None" if "sent_f c s = 1"
  proof -
    from that have "''fallback-success'' \<in> set (events s)
        \<or> w_reporting_success (wpc s) \<or> d_reporting_success (dpc s)"
      by (simp add: sent_f_def split: if_splits)
    then consider (w) "w_reporting_success (wpc s)" | (d) "d_reporting_success (dpc s)"
      | (e) "''fallback-success'' \<in> set (events s)" by blast
    then show ?thesis
    proof cases
      case w
      then obtain x where "wpc s = W_tryFallback x (F_Report None)"
        by (cases "wpc s" rule: w_reporting_success.cases) simp_all
      with once_frame_w[OF assms(2)] show ?thesis by (auto split: option.splits)
    next
      case d
      then have "dpc s = D_tryFallback (F_Report None)"
        by (cases "dpc s" rule: d_reporting_success.cases) simp_all
      with once_frame_d[OF assms(2)] show ?thesis by (auto split: option.splits)
    next
      case e
      then have "''fallback-success'' \<in> set (fb_events (events s))" by (simp add: fb_events_def)
      then have "length (fb_events (events s)) \<noteq> 0" by auto
      with assms(3) have "fallbackOnce s = Completed \<or> w_returning (wpc s) \<or> d_returning (dpc s)"
        by (auto simp: single_inv_def split: if_splits)
      then consider (c) "fallbackOnce s = Completed" | (wr) "w_returning (wpc s)"
        | (dr) "d_returning (dpc s)" by blast
      then have "\<exists>r. resolved s = [r] \<and> settled c (fallback_calls s) (events s) r"
      proof cases
        case c
        from completed_resolved[OF assms(2) c] show ?thesis .
      next
        case wr
        then obtain x v where "wpc s = W_tryFallback x (F_Return v)"
          by (cases "wpc s" rule: w_returning.cases) simp_all
        with once_frame_w[OF assms(2)] show ?thesis by simp
      next
        case dr
        then obtain v where "dpc s = D_tryFallback (F_Return v)"
          by (cases "dpc s" rule: d_returning.cases) simp_all
        with once_frame_d[OF assms(2)] show ?thesis by simp
      qed
      with e show ?thesis by (auto simp: settled_def fb_free_def split: option.splits)
    qed
  qed
  have r: "run c = None \<and> runs s = 1" if "sent_r c s = 1"
  proof -
    from that have "run c = None" "AllowRequest c" "0 < Tickets c" "w_signalled (wpc s)"
      by (simp_all add: sent_r_def split: if_splits)
    moreover from this(4) have "w_started (wpc s)" by (cases "wpc s") simp_all
    ultimately show ?thesis using assms(1) by (simp add: runs_inv_def)
  qed
  have "sent_r c s \<le> 1" "sent_f c s \<le> 1" by (simp_all add: sent_r_def sent_f_def)
  with k have "sent_r c s = 1 \<or> sent_f c s = 1" by arith
  with r f v show ?thesis by blast
qed

text \<open>A call whose circuit lookup failed: only the caller's receive can happen.\<close>

lemma lookup_failed_Go: "GetCircuit c = Some err \<Longrightarrow> lookup_failed err (Go c)"
  by (simp add: lookup_failed_def Go_def delivered_def)

lemma lookup_failed_step:
  assumes "lookup_failed err s"
  shows "pred_option (lookup_failed err) (step c a s)"
proof (cases a)
  case Recv_err
  with assms show ?thesis
    by (cases "errChan s") (auto simp: lookup_failed_def delivered_def)
qed (use assms in \<open>auto simp: lookup_failed_def\<close>)

lemma lookup_failed_exec:
  assumes "lookup_failed err s" "exec c sched s = Some s'"
  shows "lookup_failed err s'"
  using assms
proof (induction sched arbitrary: s)
  case Nil
  then show ?case by simp
next
  case (Cons a as)
  show ?case
  proof (cases "step c a s")
    case None
    with Cons.prems(2) show ?thesis by simp
  next
    case (Some s1)
    with lookup_failed_step[OF Cons.prems(1), of c a] have "lookup_failed err s1" by simp
    moreover from Cons.prems(2) Some have "exec c as s1 = Some s'" by simp
    ultimately show ?thesis by (rule Cons.IH)
  qed
qed

lemma reachable_cases:
  assumes "exec c sched (Go c) = Some s"
  obtains (circuit) "GetCircuit c = None" "invariant c s"
  | (no_circuit) err where "GetCircuit c = Some err" "lookup_failed err s"
proof (cases "GetCircuit c")
  case None
  with invariant_reachable[OF None assms] circuit show ?thesis by blast
next
  case (Some err)
  with lookup_failed_exec[OF lookup_failed_Go[OF Some] assms] no_circuit show ?thesis by blast
qed

lemma exec_length_any:
  assumes "exec c sched (Go c) = Some s"
  shows "length sched \<le> 36"
proof -
  have "remaining (Go c) \<le> 36" by (cases "GetCircuit c") (simp_all add: remaining_def Go_def)
  with exec_bounded[OF assms] show ?thesis by simp
qed


lemma fresh_silent:
  assumes "flight_inv c s" "fallbackOnce s \<noteq> Completed"
  shows "delivered s = []" "w_sending (wpc s) = None" "d_sending (dpc s) = None"
proof -
  from assms have "in_flight s = 0" by (simp add: flight_inv_def)
  then show "delivered s = []" "w_sending (wpc s) = None" "d_sending (dpc s) = None"
    using delivered_length[of s] by (simp_all add: in_flight_def)
qed



lemma delivered_empty:
  assumes "delivered s = []"
  shows "errChan s = []" "received s = None \<or> received s = Some None"
  using assms by (cases "received s" rule: got_error.cases; simp add: delivered_def)+

lemma resolution_via_Do [simp]: "resolution (c\<lparr>via_Do := v\<rparr>) = resolution c"
  by (rule ext) (simp add: resolution_def)

section \<open>Properties\<close>

text \<open>
  C1. The claim: for every call, outcome resolution (one of short-circuit, rejected,
  failure, timeout, success reported, plus at most one fallback invocation) happens at most
  once, and the number of resolution actions (fallback invocation or plain success) is
  exactly one per call, for every interleaving.  The code breaks it in two ways.  When the
  operation fails and the fallback returns \<open>nil\<close>, lines 110-119 fall through to the
  report of line 119: the circuit is told \<open>failure\<close>, \<open>fallback-success\<close> and \<open>success\<close>
  for the one call, and both a fallback invocation and a plain success happen.  And the
  rejected path (lines 89-96) reports without looking at \<open>stop\<close>: when the timer fires
  before the worker reports, both \<open>timeout\<close> and \<open>rejected\<close> are reported.
\<close>

theorem outcome_reported_twice:
  "map_option outcome (exec call_fallback_ok sched_worker_first (Go call_fallback_ok))
     = Some ([''failure'', ''fallback-success'', ''success''], [], None)
   \<and> map_option ended (exec call_fallback_ok sched_worker_first (Go call_fallback_ok)) = Some True
   \<and> map_option fallback_calls (exec call_fallback_ok sched_worker_first (Go call_fallback_ok))
     = Some [ErrorString ''boom'']
   \<and> map_option outcome (exec call_rejected sched_rejected_race (Go call_rejected))
     = Some ([''timeout'', ''rejected''], [ErrTimeout], None)
   \<and> map_option ended (exec call_rejected sched_rejected_race (Go call_rejected)) = Some True"
  by code_simp

text \<open>
  C2. The claim: a worker whose operation returned an error reports exactly one primary
  outcome, \<open>failure\<close>, and \<open>success\<close> is reported if and only if the operation returned no
  error, also when a fallback is given and succeeds.  The code: a call through \<open>Do\<close> whose
  operation fails and whose fallback returns \<open>nil\<close> reports \<open>failure\<close> and then
  \<open>success\<close> (line 119 is reached because the \<open>return\<close> of line 115 is inside the test
  of line 113).
\<close>

theorem success_after_failure:
  "run call_Do = Some (ErrorString ''unavailable'')
   \<and> map_option outcome (Do call_Do sched_Do)
     = Some ([''failure'', ''fallback-success'', ''success''], [], Some None)
   \<and> map_option ended (Do call_Do sched_Do) = Some True"
  by code_simp

text \<open>
  C3. Along every interleaving of a call started by \<open>Go\<close>, directly or through \<open>Do\<close>,
  whose circuit lookup succeeded.  \<open>resolved s\<close> lists the errors the body of \<open>once.Do\<close>
  has been run for, \<open>delivered s\<close> the errors the result channel has carried (taken by the
  caller or waiting in \<open>errChan\<close>), \<open>fb_events\<close> the fallback events reported.
  \<^item> At most one attempt is the first: the body runs for at most one error, the fallback is
    called at most once, at most one fallback event is reported and at most one error
    reaches the result channel; before the first attempt there is none of these.
  \<^item> An attempt (the worker at lines 73, 92, 112, the deadline goroutine at line 143) that
    finds the guard fresh runs the body for its own error; one that arrives while the body
    runs waits; one that arrives afterwards returns \<open>nil\<close> and changes nothing.
  \<^item> What \<open>tryFallback\<close> returned is put on \<open>errChan\<close> at once (there is room).
  \<^item> Once the first attempt, for the error \<open>e\<close>, has ended: without a fallback, no fallback
    was called or reported and the result channel carries exactly \<open>e\<close>; when the fallback
    returned \<open>nil\<close> it was called with \<open>e\<close>, \<open>fallback-success\<close> is reported, the
    result channel carries nothing, and through \<open>Do\<close> the caller has returned \<open>nil\<close> or
    finds a signal in \<open>done\<close>; when it returned an error, it was called with \<open>e\<close>,
    \<open>fallback-failure\<close> is reported and the result channel carries exactly the composite
    error, whose text contains what \<open>%v\<close> prints for both errors.  (The result channel
    carries nothing else before, and exactly that as soon as no activity stands at its send
    statement.)
  \<^item> A caller of \<open>Do\<close> that got \<open>nil\<close> took a signal from \<open>done\<close>: the operation had run
    and returned \<open>nil\<close>, or the fallback had returned \<open>nil\<close>.
\<close>

theorem resolution_delivered:
  assumes "GetCircuit c = None" and "exec c sched (Go c) = Some s"
  shows "length (resolved s) \<le> 1
       \<and> length (fallback_calls s) \<le> 1
       \<and> length (fb_events (events s)) \<le> 1
       \<and> length (delivered s) \<le> 1
       \<and> (fallbackOnce s = Fresh \<longrightarrow>
            resolved s = [] \<and> fallback_calls s = [] \<and> fb_events (events s) = [] \<and> delivered s = [])
       \<and> (\<forall>x. wpc s = W_tryFallback x F_Once \<longrightarrow>
            step c Worker s
            = (case fallbackOnce s of
                 Fresh \<Rightarrow> Some (s\<lparr>fallbackOnce := Busy, resolved := [site_error x],
                                  wpc := W_tryFallback x F_Call\<rparr>)
               | Busy \<Rightarrow> None
               | Completed \<Rightarrow> Some (s\<lparr>wpc := after_fallback x\<rparr>)))
       \<and> (dpc s = D_tryFallback F_Once \<longrightarrow>
            step c Deadline s
            = (case fallbackOnce s of
                 Fresh \<Rightarrow> Some (s\<lparr>fallbackOnce := Busy, resolved := [ErrTimeout],
                                  dpc := D_tryFallback F_Call\<rparr>)
               | Busy \<Rightarrow> None
               | Completed \<Rightarrow> Some (s\<lparr>dpc := D_Unlock\<rparr>)))
       \<and> (\<forall>x v. wpc s = W_Send x v \<longrightarrow>
            step c Worker s = Some (s\<lparr>errChan := [v], wpc := after_send x\<rparr>))
       \<and> (\<forall>v. dpc s = D_Send v \<longrightarrow>
            step c Deadline s = Some (s\<lparr>errChan := [v], dpc := D_Unlock\<rparr>))
       \<and> (\<forall>e. fallbackOnce s = Completed \<and> resolved s = [e] \<and> fallback c = None \<longrightarrow>
            fallback_calls s = [] \<and> fb_events (events s) = [] \<and> set (delivered s) \<subseteq> {e}
          \<and> (w_sending (wpc s) = None \<and> d_sending (dpc s) = None \<longrightarrow> delivered s = [e]))
       \<and> (\<forall>e f. fallbackOnce s = Completed \<and> resolved s = [e] \<and> fallback c = Some f
                \<and> f e = None \<longrightarrow>
            fallback_calls s = [e] \<and> fb_events (events s) = [''fallback-success'']
          \<and> delivered s = []
          \<and> (via_Do c \<longrightarrow> 0 < doneChan s \<or> received s = Some None))
       \<and> (\<forall>e f fallbackErr. fallbackOnce s = Completed \<and> resolved s = [e] \<and> fallback c = Some f
                \<and> f e = Some fallbackErr \<longrightarrow>
            fallback_calls s = [e] \<and> fb_events (events s) = [''fallback-failure'']
          \<and> set (delivered s) \<subseteq> {fallback_failed fallbackErr e}
          \<and> (w_sending (wpc s) = None \<and> d_sending (dpc s) = None \<longrightarrow>
               delivered s = [fallback_failed fallbackErr e])
          \<and> sublist (verb_v fallbackErr) (Error (fallback_failed fallbackErr e))
          \<and> sublist (verb_v e) (Error (fallback_failed fallbackErr e)))
       \<and> (received s = Some None \<longrightarrow>
            via_Do c
          \<and> ((run c = None \<and> runs s = 1)
             \<or> (\<exists>f e. fallback c = Some f \<and> resolved s = [e] \<and> f e = None)))"
proof -
  note i = invariantD[OF invariant_reachable[OF assms]]
  from i(8) have 1: "length (resolved s) \<le> 1"
    by (cases "fallbackOnce s") (simp_all add: once_inv_def)
  from i(14) have 2: "length (fallback_calls s) \<le> 1" by (simp add: single_inv_def)
  from i(14) have 3: "length (fb_events (events s)) \<le> 1" by (simp add: single_inv_def)
  from carry_bound[OF i(10)] have 4: "length (delivered s) \<le> 1" by (simp add: delivered_length)
  have 5: "fallbackOnce s = Fresh \<longrightarrow>
      resolved s = [] \<and> fallback_calls s = [] \<and> fb_events (events s) = [] \<and> delivered s = []"
  proof
    assume f: "fallbackOnce s = Fresh"
    with i(10) have "in_flight s = 0" by (simp add: flight_inv_def)
    then have "length (delivered s) = 0" by (simp add: delivered_length in_flight_def)
    with i(8) f show "resolved s = [] \<and> fallback_calls s = [] \<and> fb_events (events s) = []
        \<and> delivered s = []"
      by (simp add: once_inv_def fb_events_free)
  qed
  have r: "fallbackOnce s = Fresh \<Longrightarrow> resolved s = []" using i(8) by (simp add: once_inv_def)
  have 6: "\<forall>x. wpc s = W_tryFallback x F_Once \<longrightarrow>
            step c Worker s
            = (case fallbackOnce s of
                 Fresh \<Rightarrow> Some (s\<lparr>fallbackOnce := Busy, resolved := [site_error x],
                                  wpc := W_tryFallback x F_Call\<rparr>)
               | Busy \<Rightarrow> None
               | Completed \<Rightarrow> Some (s\<lparr>wpc := after_fallback x\<rparr>))"
    using r by (cases "fallbackOnce s") simp_all
  have 7: "dpc s = D_tryFallback F_Once \<longrightarrow>
            step c Deadline s
            = (case fallbackOnce s of
                 Fresh \<Rightarrow> Some (s\<lparr>fallbackOnce := Busy, resolved := [ErrTimeout],
                                  dpc := D_tryFallback F_Call\<rparr>)
               | Busy \<Rightarrow> None
               | Completed \<Rightarrow> Some (s\<lparr>dpc := D_Unlock\<rparr>))"
    using r by (cases "fallbackOnce s") simp_all
  have 8: "\<forall>x v. wpc s = W_Send x v \<longrightarrow>
            step c Worker s = Some (s\<lparr>errChan := [v], wpc := after_send x\<rparr>)"
    using send_room[OF i(10)] by auto
  have 9: "\<forall>v. dpc s = D_Send v \<longrightarrow>
            step c Deadline s = Some (s\<lparr>errChan := [v], dpc := D_Unlock\<rparr>)"
    using send_room[OF i(10)] by auto
  have 10: "\<forall>e. fallbackOnce s = Completed \<and> resolved s = [e] \<and> fallback c = None \<longrightarrow>
            fallback_calls s = [] \<and> fb_events (events s) = [] \<and> set (delivered s) \<subseteq> {e}
          \<and> (w_sending (wpc s) = None \<and> d_sending (dpc s) = None \<longrightarrow> delivered s = [e])"
  proof (intro allI impI)
    fix e
    assume a: "fallbackOnce s = Completed \<and> resolved s = [e] \<and> fallback c = None"
    then have v: "resolution c e = Some e" by (simp add: resolution_def)
    from a completed_facts(1)[OF i(8,14), of e] delivered_resolution(2,3)[OF i(10) _ _ v]
    show "fallback_calls s = [] \<and> fb_events (events s) = [] \<and> set (delivered s) \<subseteq> {e}
          \<and> (w_sending (wpc s) = None \<and> d_sending (dpc s) = None \<longrightarrow> delivered s = [e])"
      by blast
  qed
  have 11: "\<forall>e f. fallbackOnce s = Completed \<and> resolved s = [e] \<and> fallback c = Some f
                \<and> f e = None \<longrightarrow>
            fallback_calls s = [e] \<and> fb_events (events s) = [''fallback-success'']
          \<and> delivered s = []
          \<and> (via_Do c \<longrightarrow> 0 < doneChan s \<or> received s = Some None)"
  proof (intro allI impI)
    fix e f
    assume a: "fallbackOnce s = Completed \<and> resolved s = [e] \<and> fallback c = Some f \<and> f e = None"
    then have v: "resolution c e = None" by (simp add: resolution_def)
    from a completed_facts(2)[OF i(8,14), of e f]
    have b: "fallback_calls s = [e]" "fb_events (events s) = [''fallback-success'']" by simp_all
    from b(2) have "''fallback-success'' \<in> set (fb_events (events s))" by simp
    then have m: "''fallback-success'' \<in> set (events s)" by (simp add: fb_events_def)
    have d: "0 < doneChan s \<or> received s = Some None" if "via_Do c"
    proof -
      from that m have "sent_f c s = 1" by (simp add: sent_f_def)
      with i(13) have "doneChan s + (if received s = Some None then 1 else 0) = sent_r c s + 1"
        by (simp add: channels_def)
      then show ?thesis by (cases "received s = Some None") simp_all
    qed
    from a delivered_resolution(1)[OF i(10) _ _ v] have "delivered s = []" by simp
    with b d
    show "fallback_calls s = [e] \<and> fb_events (events s) = [''fallback-success'']
          \<and> delivered s = []
          \<and> (via_Do c \<longrightarrow> 0 < doneChan s \<or> received s = Some None)"
      by simp
  qed
  have 12: "\<forall>e f fallbackErr. fallbackOnce s = Completed \<and> resolved s = [e] \<and> fallback c = Some f
                \<and> f e = Some fallbackErr \<longrightarrow>
            fallback_calls s = [e] \<and> fb_events (events s) = [''fallback-failure'']
          \<and> set (delivered s) \<subseteq> {fallback_failed fallbackErr e}
          \<and> (w_sending (wpc s) = None \<and> d_sending (dpc s) = None \<longrightarrow>
               delivered s = [fallback_failed fallbackErr e])
          \<and> sublist (verb_v fallbackErr) (Error (fallback_failed fallbackErr e))
          \<and> sublist (verb_v e) (Error (fallback_failed fallbackErr e))"
  proof (intro allI impI)
    fix e f fallbackErr
    assume a: "fallbackOnce s = Completed \<and> resolved s = [e] \<and> fallback c = Some f
                \<and> f e = Some fallbackErr"
    then have v: "resolution c e = Some (fallback_failed fallbackErr e)"
      by (simp add: resolution_def)
    from a completed_facts(3)[OF i(8,14), of e f fallbackErr]
      delivered_resolution(2,3)[OF i(10) _ _ v] fallback_failed_names[where fallbackErr = fallbackErr and err = e]
    show "fallback_calls s = [e] \<and> fb_events (events s) = [''fallback-failure'']
          \<and> set (delivered s) \<subseteq> {fallback_failed fallbackErr e}
          \<and> (w_sending (wpc s) = None \<and> d_sending (dpc s) = None \<longrightarrow>
               delivered s = [fallback_failed fallbackErr e])
          \<and> sublist (verb_v fallbackErr) (Error (fallback_failed fallbackErr e))
          \<and> sublist (verb_v e) (Error (fallback_failed fallbackErr e))"
      by blast
  qed
  from done_taken[OF i(4,8,14,13)]
  have 13: "received s = Some None \<longrightarrow>
            via_Do c
          \<and> ((run c = None \<and> runs s = 1)
             \<or> (\<exists>f e. fallback c = Some f \<and> resolved s = [e] \<and> f e = None))"
    by blast
  show ?thesis by (intro conjI) (fact 1 2 3 4 5 6 7 8 9 10 11 12 13)+
qed

theorem resolution_delivered_witness:
  "GetCircuit call_open_fallback_fails = None
   \<and> (\<exists>s. exec call_open_fallback_fails sched_open (Go call_open_fallback_fails) = Some s
          \<and> fallbackOnce s = Completed \<and> resolved s = [ErrCircuitOpen]
          \<and> w_sending (wpc s) = None \<and> d_sending (dpc s) = None
          \<and> fallback_calls s = [ErrCircuitOpen]
          \<and> fb_events (events s) = [''fallback-failure'']
          \<and> delivered s = [fallback_failed (ErrorString ''cache down'') ErrCircuitOpen]
          \<and> errChan s = [fallback_failed (ErrorString ''cache down'') ErrCircuitOpen])
   \<and> (\<exists>s. Do call_open_fallback_fails sched_Do_open = Some s
          \<and> fallbackOnce s = Completed \<and> resolved s = [ErrCircuitOpen]
          \<and> w_sending (wpc s) = None \<and> d_sending (dpc s) = None
          \<and> delivered s = [fallback_failed (ErrorString ''cache down'') ErrCircuitOpen]
          \<and> received s = Some (Some (fallback_failed (ErrorString ''cache down'') ErrCircuitOpen)))
   \<and> sublist ''cache down'' (Error (fallback_failed (ErrorString ''cache down'') ErrCircuitOpen))
   \<and> sublist ''hystrix: circuit open''
        (Error (fallback_failed (ErrorString ''cache down'') ErrCircuitOpen))"
proof -
  let ?c = call_open_fallback_fails
  let ?d = "call_open_fallback_fails\<lparr>via_Do := True\<rparr>"
  let ?f = "\<lambda>e::error. Some (ErrorString ''cache down'')"
  let ?v = "fallback_failed (ErrorString ''cache down'') ErrCircuitOpen"
  let ?r = "exec ?c sched_open (Go ?c)"
  let ?q = "exec ?d sched_Do_open (Go ?d)"
  have g: "GetCircuit ?c = None" "fallback ?c = Some ?f" "GetCircuit ?d = None"
    "fallback ?d = Some ?f"
    by (simp_all add: call_open_fallback_fails_def)
  have e: "map_option fallbackOnce ?r = Some Completed"
    "map_option resolved ?r = Some [ErrCircuitOpen]"
    "map_option ended ?r = Some True" "map_option errChan ?r = Some [?v]"
    "map_option fallbackOnce ?q = Some Completed"
    "map_option resolved ?q = Some [ErrCircuitOpen]"
    "map_option ended ?q = Some True" "map_option received ?q = Some (Some (Some ?v))"
    by code_simp+
  have 1: "\<exists>s. ?r = Some s
          \<and> fallbackOnce s = Completed \<and> resolved s = [ErrCircuitOpen]
          \<and> w_sending (wpc s) = None \<and> d_sending (dpc s) = None
          \<and> fallback_calls s = [ErrCircuitOpen]
          \<and> fb_events (events s) = [''fallback-failure'']
          \<and> delivered s = [?v] \<and> errChan s = [?v]"
  proof (cases ?r)
    case None
    with e show ?thesis by simp
  next
    case (Some s)
    with e have o: "fallbackOnce s = Completed" "resolved s = [ErrCircuitOpen]"
      "w_sending (wpc s) = None" "d_sending (dpc s) = None" "errChan s = [?v]"
      by (simp_all add: ended_def)
    note t = resolution_delivered[OF g(1) Some, THEN conjunct2, THEN conjunct2, THEN conjunct2,
        THEN conjunct2, THEN conjunct2, THEN conjunct2, THEN conjunct2, THEN conjunct2,
        THEN conjunct2, THEN conjunct2, THEN conjunct2, THEN conjunct1, rule_format,
        of ErrCircuitOpen ?f "ErrorString ''cache down''"]
    from t o g(2)
    have "fallback_calls s = [ErrCircuitOpen]" "fb_events (events s) = [''fallback-failure'']"
      "delivered s = [?v]"
      by simp_all
    with Some o show ?thesis by simp
  qed
  have 2: "\<exists>s. ?q = Some s
          \<and> fallbackOnce s = Completed \<and> resolved s = [ErrCircuitOpen]
          \<and> w_sending (wpc s) = None \<and> d_sending (dpc s) = None
          \<and> delivered s = [?v] \<and> received s = Some (Some ?v)"
  proof (cases ?q)
    case None
    with e show ?thesis by simp
  next
    case (Some s)
    with e have o: "fallbackOnce s = Completed" "resolved s = [ErrCircuitOpen]"
      "w_sending (wpc s) = None" "d_sending (dpc s) = None" "received s = Some (Some ?v)"
      by (simp_all add: ended_def)
    note t = resolution_delivered[OF g(3) Some, THEN conjunct2, THEN conjunct2, THEN conjunct2,
        THEN conjunct2, THEN conjunct2, THEN conjunct2, THEN conjunct2, THEN conjunct2,
        THEN conjunct2, THEN conjunct2, THEN conjunct2, THEN conjunct1, rule_format,
        of ErrCircuitOpen ?f "ErrorString ''cache down''"]
    from t o g(4) have "delivered s = [?v]" by simp
    with Some o show ?thesis by simp
  qed
  have 3: "sublist ''cache down'' (Error ?v)" "sublist ''hystrix: circuit open'' (Error ?v)"
    using fallback_failed_names[where fallbackErr = "ErrorString ''cache down''"
        and err = ErrCircuitOpen]
    by (simp_all add: ErrCircuitOpen_def)
  from g(1) 1 2 3 show ?thesis unfolding Do_def by blast
qed




text \<open>
  C5. Along every interleaving: once \<open>timeout\<close> has been reported, no \<open>failure\<close> is ever
  reported (the worker finds \<open>stop\<close> set in line 105 and returns); and the operation is
  never cancelled: while it runs, the worker's next step is always possible and is the
  return of the operation, whatever the deadline goroutine has done, and no step of
  another activity moves the worker or restarts the operation.
\<close>

theorem timeout_discards_failure:
  assumes "exec c sched (Go c) = Some s"
  shows "(''timeout'' \<in> set (events s) \<longrightarrow> ''failure'' \<notin> set (events s))
       \<and> (wpc s = W_Running \<longrightarrow>
            map_option wpc (step c Worker s)
            = Some (if via_Do c \<and> run c = None then W_Do_done else W_Lock (run c)))
       \<and> (\<forall>a. a \<noteq> Worker \<longrightarrow>
            pred_option (\<lambda>s'. wpc s' = wpc s \<and> runs s' = runs s) (step c a s))"
proof -
  from assms have "''timeout'' \<in> set (events s) \<longrightarrow> ''failure'' \<notin> set (events s)"
  proof (cases rule: reachable_cases)
    case circuit
    from guard_excl(1)[OF invariantD(2)[OF circuit(2)]] show ?thesis by blast
  next
    case (no_circuit err)
    then show ?thesis by (simp add: lookup_failed_def)
  qed
  moreover have "wpc s = W_Running \<longrightarrow>
      map_option wpc (step c Worker s)
      = Some (if via_Do c \<and> run c = None then W_Do_done else W_Lock (run c))"
    by simp
  moreover have "\<forall>a. a \<noteq> Worker \<longrightarrow>
      pred_option (\<lambda>s'. wpc s' = wpc s \<and> runs s' = runs s) (step c a s)"
    using others_keep_worker by blast
  ultimately show ?thesis by blast
qed

theorem timeout_discards_failure_witness:
  "GetCircuit call_late_failure = None
   \<and> (\<exists>s. exec call_late_failure sched_timeout_fires (Go call_late_failure) = Some s
          \<and> ''timeout'' \<in> set (events s) \<and> wpc s = W_Running
          \<and> ''failure'' \<notin> set (events s)
          \<and> map_option wpc (step call_late_failure Worker s)
            = Some (W_Lock (Some (ErrorString ''late'')))
          \<and> pred_option (\<lambda>s'. wpc s' = wpc s \<and> runs s' = runs s)
               (step call_late_failure Deadline s))"
proof -
  let ?r = "exec call_late_failure sched_timeout_fires (Go call_late_failure)"
  have g: "GetCircuit call_late_failure = None" by (simp add: call_late_failure_def)
  have e: "map_option events ?r = Some [''timeout'']" "map_option wpc ?r = Some W_Running"
    by code_simp+
  show ?thesis
  proof (cases ?r)
    case None
    with e show ?thesis by simp
  next
    case (Some s)
    with e have o: "events s = [''timeout'']" "wpc s = W_Running" by simp_all
    note t = timeout_discards_failure[OF Some]
    from t o have "''failure'' \<notin> set (events s)" by simp
    moreover from t o have "map_option wpc (step call_late_failure Worker s)
       = Some (if via_Do call_late_failure \<and> run call_late_failure = None then W_Do_done
               else W_Lock (run call_late_failure))"
      by simp
    then have "map_option wpc (step call_late_failure Worker s)
       = Some (W_Lock (Some (ErrorString ''late'')))"
      by (simp add: call_late_failure_def)
    moreover from t have "\<forall>a. a \<noteq> Worker \<longrightarrow>
        pred_option (\<lambda>s'. wpc s' = wpc s \<and> runs s' = runs s) (step call_late_failure a s)"
      by blast
    from this[rule_format, of Deadline]
    have "pred_option (\<lambda>s'. wpc s' = wpc s \<and> runs s' = runs s)
            (step call_late_failure Deadline s)"
      by (simp del: step.simps)
    ultimately show ?thesis using g Some o by (simp del: step.simps)
  qed
qed

text \<open>
  C6. Along every interleaving of a call of \<open>Do\<close>:
  \<^item> \<open>Do\<close> returns: an interleaving has at most 36 steps, and as long as \<open>Do\<close> has not
    returned (\<open>received s = None\<close>) a step is possible; when both activities have ended it
    is one of the two receives of \<open>Do\<close>'s \<open>select\<close>;
  \<^item> an error \<open>Do\<close> returns was taken from \<open>errChan\<close>: it is the error of the circuit
    lookup, or what the one resolution by \<open>tryFallback\<close> yielded;
  \<^item> when \<open>Do\<close> returns \<open>nil\<close> it has taken a signal from \<open>done\<close>: the operation has run
    and returned \<open>nil\<close>, or the fallback has returned \<open>nil\<close>;
  \<^item> when the circuit lookup succeeds, the operation returns an error whenever it is run and
    the fallback returns \<open>nil\<close> for every error: nothing is ever put on \<open>errChan\<close>, so
    \<open>Do\<close> has returned \<open>nil\<close> or has not returned yet, and once both activities have ended
    \<open>fallback-success\<close> is reported, it is the only fallback event, and a caller that has
    not returned yet finds a signal in \<open>done\<close>.  (The signal is sent in line 175, before
    the report of line 213: \<open>Do\<close> may return before the event is recorded.)
\<close>

theorem Do_fallback_suppresses_error:
  assumes "Do c sched = Some s"
  shows "length sched \<le> 36
       \<and> (received s = None \<longrightarrow>
            step (c\<lparr>via_Do := True\<rparr>) Worker s \<noteq> None
          \<or> step (c\<lparr>via_Do := True\<rparr>) Deadline s \<noteq> None
          \<or> step (c\<lparr>via_Do := True\<rparr>) Timer s \<noteq> None
          \<or> step (c\<lparr>via_Do := True\<rparr>) Recv_done s \<noteq> None
          \<or> step (c\<lparr>via_Do := True\<rparr>) Recv_err s \<noteq> None)
       \<and> (received s = None \<and> wpc s = W_Exit \<and> dpc s = D_Exit \<longrightarrow>
            step (c\<lparr>via_Do := True\<rparr>) Recv_done s \<noteq> None
          \<or> step (c\<lparr>via_Do := True\<rparr>) Recv_err s \<noteq> None)
       \<and> (\<forall>e. received s = Some (Some e) \<longrightarrow>
            GetCircuit c = Some e
          \<or> (fallbackOnce s = Completed \<and> (\<exists>r. resolved s = [r] \<and> resolution c r = Some e)))
       \<and> (received s = Some None \<longrightarrow>
            (run c = None \<and> runs s = 1)
          \<or> (\<exists>f e. fallback c = Some f \<and> resolved s = [e] \<and> f e = None))
       \<and> (GetCircuit c = None \<and> run c \<noteq> None
            \<and> (\<exists>f. fallback c = Some f \<and> (\<forall>err. f err = None)) \<longrightarrow>
            errChan s = [] \<and> (received s = None \<or> received s = Some None)
          \<and> (wpc s = W_Exit \<and> dpc s = D_Exit \<longrightarrow>
               ''fallback-success'' \<in> set (events s)
             \<and> fb_events (events s) = [''fallback-success'']
             \<and> (received s = None \<longrightarrow> 0 < doneChan s)))"
proof -
  let ?c = "c\<lparr>via_Do := True\<rparr>"
  from assms have x: "exec ?c sched (Go ?c) = Some s" by (simp add: Do_def)
  have 1: "length sched \<le> 36" using exec_length_any[OF x] .
  from x show ?thesis
  proof (cases rule: reachable_cases)
    case (no_circuit err)
    then have g: "GetCircuit c = Some err" by simp
    from no_circuit(2) have l: "wpc s = W_Exit" "dpc s = D_Exit" "received s \<noteq> Some None"
      "delivered s = [err]"
      by (simp_all add: lookup_failed_def)
    have r: "step ?c Recv_err s \<noteq> None" if "received s = None"
      using that l(4) by (cases "errChan s") (simp_all add: delivered_def)
    then have 2: "received s = None \<longrightarrow>
            step ?c Worker s \<noteq> None \<or> step ?c Deadline s \<noteq> None \<or> step ?c Timer s \<noteq> None
          \<or> step ?c Recv_done s \<noteq> None \<or> step ?c Recv_err s \<noteq> None"
      by blast
    from r have 3: "received s = None \<and> wpc s = W_Exit \<and> dpc s = D_Exit \<longrightarrow>
            step ?c Recv_done s \<noteq> None \<or> step ?c Recv_err s \<noteq> None"
      by blast
    from g l(4) have 4: "\<forall>e. received s = Some (Some e) \<longrightarrow>
            GetCircuit c = Some e
          \<or> (fallbackOnce s = Completed \<and> (\<exists>r. resolved s = [r] \<and> resolution c r = Some e))"
      by (auto simp: delivered_def)
    from l(3) have 5: "received s = Some None \<longrightarrow>
            (run c = None \<and> runs s = 1)
          \<or> (\<exists>f e. fallback c = Some f \<and> resolved s = [e] \<and> f e = None)"
      by simp
    from g have 6: "GetCircuit c = None \<and> run c \<noteq> None
            \<and> (\<exists>f. fallback c = Some f \<and> (\<forall>err. f err = None)) \<longrightarrow>
            errChan s = [] \<and> (received s = None \<or> received s = Some None)
          \<and> (wpc s = W_Exit \<and> dpc s = D_Exit \<longrightarrow>
               ''fallback-success'' \<in> set (events s)
             \<and> fb_events (events s) = [''fallback-success'']
             \<and> (received s = None \<longrightarrow> 0 < doneChan s))"
      by simp
    show ?thesis by (intro conjI) (fact 1 2 3 4 5 6)+
  next
    case circuit
    note i = invariantD[OF circuit(2)]
    have v: "via_Do ?c" by simp
    have 3: "received s = None \<and> wpc s = W_Exit \<and> dpc s = D_Exit \<longrightarrow>
            step ?c Recv_done s \<noteq> None \<or> step ?c Recv_err s \<noteq> None"
    proof
      assume a: "received s = None \<and> wpc s = W_Exit \<and> dpc s = D_Exit"
      with Do_can_return[OF circuit(2) v] have "0 < doneChan s \<or> errChan s \<noteq> []" by simp
      with a show "step ?c Recv_done s \<noteq> None \<or> step ?c Recv_err s \<noteq> None"
        by (cases "errChan s") auto
    qed
    have 2: "received s = None \<longrightarrow>
            step ?c Worker s \<noteq> None \<or> step ?c Deadline s \<noteq> None \<or> step ?c Timer s \<noteq> None
          \<or> step ?c Recv_done s \<noteq> None \<or> step ?c Recv_err s \<noteq> None"
    proof (cases "wpc s = W_Exit \<and> dpc s = D_Exit")
      case True
      with 3 show ?thesis by blast
    next
      case False
      with progress[OF circuit(2)] show ?thesis by blast
    qed
    have 4: "\<forall>e. received s = Some (Some e) \<longrightarrow>
            GetCircuit c = Some e
          \<or> (fallbackOnce s = Completed \<and> (\<exists>r. resolved s = [r] \<and> resolution c r = Some e))"
      using carried_resolution[OF i(8,10)] by auto
    have 5: "received s = Some None \<longrightarrow>
            (run c = None \<and> runs s = 1)
          \<or> (\<exists>f e. fallback c = Some f \<and> resolved s = [e] \<and> f e = None)"
      using done_taken[OF i(4,8,14,13)] by simp
    have 6: "GetCircuit c = None \<and> run c \<noteq> None
            \<and> (\<exists>f. fallback c = Some f \<and> (\<forall>err. f err = None)) \<longrightarrow>
            errChan s = [] \<and> (received s = None \<or> received s = Some None)
          \<and> (wpc s = W_Exit \<and> dpc s = D_Exit \<longrightarrow>
               ''fallback-success'' \<in> set (events s)
             \<and> fb_events (events s) = [''fallback-success'']
             \<and> (received s = None \<longrightarrow> 0 < doneChan s))"
    proof
      assume a: "GetCircuit c = None \<and> run c \<noteq> None
            \<and> (\<exists>f. fallback c = Some f \<and> (\<forall>err. f err = None))"
      then obtain f where f: "fallback ?c = Some f" "\<And>err. f err = None" by auto
      then have n: "resolution ?c r = None" for r by (simp add: resolution_def)
      have "delivered s = []"
      proof (cases "fallbackOnce s = Completed")
        case False
        from fresh_silent(1)[OF i(10) False] show ?thesis .
      next
        case True
        from completed_resolved[OF i(8) True] obtain r where "resolved s = [r]" by blast
        from delivered_resolution(1)[OF i(10) True this n] show ?thesis .
      qed
      note d = delivered_empty[OF this]
      have e: "''fallback-success'' \<in> set (events s)
             \<and> fb_events (events s) = [''fallback-success'']
             \<and> (received s = None \<longrightarrow> 0 < doneChan s)"
        if w: "wpc s = W_Exit \<and> dpc s = D_Exit"
      proof -
        from i(12) w a have k: "fallbackOnce s = Completed" by (simp add: resolves_w_def)
        from completed_resolved[OF i(8) k] obtain r where r: "resolved s = [r]" by blast
        from completed_facts(2)[OF i(8,14) k r f(1) f(2)]
        have b: "fb_events (events s) = [''fallback-success'']" by simp
        then have "''fallback-success'' \<in> set (fb_events (events s))" by simp
        then have m: "''fallback-success'' \<in> set (events s)" by (simp add: fb_events_def)
        have "0 < doneChan s" if "received s = None"
          using Do_can_return[OF circuit(2) v _ _ that] w d(1) by simp
        with b m show ?thesis by simp
      qed
      with d show "errChan s = [] \<and> (received s = None \<or> received s = Some None)
          \<and> (wpc s = W_Exit \<and> dpc s = D_Exit \<longrightarrow>
               ''fallback-success'' \<in> set (events s)
             \<and> fb_events (events s) = [''fallback-success'']
             \<and> (received s = None \<longrightarrow> 0 < doneChan s))"
        by simp
    qed
    show ?thesis by (intro conjI) (fact 1 2 3 4 5 6)+
  qed
qed

theorem Do_fallback_suppresses_error_witness:
  "(\<exists>s. Do call_Do sched_Do_early = Some s
        \<and> GetCircuit call_Do = None \<and> run call_Do \<noteq> None
        \<and> (\<exists>f. fallback call_Do = Some f \<and> (\<forall>err. f err = None))
        \<and> wpc s = W_Exit \<and> dpc s = D_Exit \<and> received s = Some None \<and> errChan s = []
        \<and> ''fallback-success'' \<in> set (events s)
        \<and> fb_events (events s) = [''fallback-success''])
   \<and> (\<exists>s. Do call_no_circuit sched_take_error = Some s
        \<and> received s = Some (Some (ErrorString ''no circuit''))
        \<and> GetCircuit call_no_circuit = Some (ErrorString ''no circuit''))"
proof -
  let ?r = "Do call_Do sched_Do_early"
  let ?q = "Do call_no_circuit sched_take_error"
  have g: "GetCircuit call_Do = None" "run call_Do \<noteq> None"
    "\<exists>f. fallback call_Do = Some f \<and> (\<forall>err. f err = None)"
    "GetCircuit call_no_circuit = Some (ErrorString ''no circuit'')"
    by (simp_all add: call_Do_def call_no_circuit_def)
  have e: "map_option ended ?r = Some True" "map_option received ?r = Some (Some None)"
    "map_option received ?q = Some (Some (Some (ErrorString ''no circuit'')))"
    by code_simp+
  have 1: "\<exists>s. ?r = Some s
        \<and> GetCircuit call_Do = None \<and> run call_Do \<noteq> None
        \<and> (\<exists>f. fallback call_Do = Some f \<and> (\<forall>err. f err = None))
        \<and> wpc s = W_Exit \<and> dpc s = D_Exit \<and> received s = Some None \<and> errChan s = []
        \<and> ''fallback-success'' \<in> set (events s)
        \<and> fb_events (events s) = [''fallback-success'']"
  proof (cases ?r)
    case None
    with e show ?thesis by simp
  next
    case (Some s)
    with e have o: "wpc s = W_Exit" "dpc s = D_Exit" "received s = Some None"
      by (simp_all add: ended_def)
    note t = Do_fallback_suppresses_error[OF Some, THEN conjunct2, THEN conjunct2,
        THEN conjunct2, THEN conjunct2, THEN conjunct2, rule_format]
    from t g(1,2,3) o
    have "errChan s = []" "''fallback-success'' \<in> set (events s)"
      "fb_events (events s) = [''fallback-success'']"
      by simp_all
    with Some g(1,2,3) o show ?thesis by simp
  qed
  have 2: "\<exists>s. ?q = Some s
        \<and> received s = Some (Some (ErrorString ''no circuit''))
        \<and> GetCircuit call_no_circuit = Some (ErrorString ''no circuit'')"
  proof (cases ?q)
    case None
    with e show ?thesis by simp
  next
    case (Some s)
    with e have o: "received s = Some (Some (ErrorString ''no circuit''))" by simp
    note t = Do_fallback_suppresses_error[OF Some, THEN conjunct2, THEN conjunct2,
        THEN conjunct2, THEN conjunct1, rule_format, of "ErrorString ''no circuit''"]
    from t o have "GetCircuit call_no_circuit = Some (ErrorString ''no circuit'')
        \<or> (fallbackOnce s = Completed
            \<and> (\<exists>r. resolved s = [r]
                  \<and> resolution call_no_circuit r = Some (ErrorString ''no circuit'')))"
      by simp
    with Some o g(4) show ?thesis by simp
  qed
  from 1 2 show ?thesis by blast
qed

text \<open>
  C7. The claim: whenever \<open>AllowRequest()\<close> is false the worker reports the short-circuit
  event and resolves with \<open>ErrCircuitOpen\<close>.  It fails when the timer has fired before the
  worker takes \<open>stopMutex\<close>: the worker finds \<open>stop\<close> set (line 67) and returns without
  a report.
\<close>

theorem short_circuit_not_reported:
  "\<not> AllowRequest call_open
   \<and> map_option outcome (exec call_open sched_open_late (Go call_open))
     = Some ([''timeout''], [ErrTimeout], None)
   \<and> map_option ended (exec call_open sched_open_late (Go call_open)) = Some True"
  by code_simp

text \<open>
  C7, amended.  Along every interleaving: when \<open>AllowRequest()\<close> is false the worker
  acquires no ticket, does not run the operation and does not report \<open>rejected\<close>; when it
  has ended it has either reported \<open>short-circuit\<close>, and then the once guard has run for
  \<open>ErrCircuitOpen\<close>, or the deadline goroutine had resolved the call before (\<open>timeout\<close>
  is reported) and the worker has reported nothing.  When \<open>AllowRequest()\<close> is true and no
  ticket is free, the worker acquires no ticket, does not run the operation, and when it
  has ended it has reported \<open>rejected\<close> and the once guard is completed: for
  \<open>ErrMaxConcurrency\<close>, or for \<open>ErrTimeout\<close> when the deadline goroutine came first (the
  worker's call of \<open>tryFallback\<close> with \<open>ErrMaxConcurrency\<close> is then the later attempt
  that does nothing).
\<close>

theorem worker_admission:
  assumes "GetCircuit c = None" and "exec c sched (Go c) = Some s"
  shows "(\<not> AllowRequest c \<longrightarrow>
            ticket s = None \<and> runs s = 0 \<and> pool s = Tickets c \<and> ''rejected'' \<notin> set (events s)
          \<and> (wpc s = W_Exit \<longrightarrow>
                (''short-circuit'' \<in> set (events s) \<and> ''timeout'' \<notin> set (events s)
                 \<and> resolved s = [ErrCircuitOpen] \<and> fallbackOnce s = Completed)
              \<or> (''timeout'' \<in> set (events s) \<and> ''short-circuit'' \<notin> set (events s))))
       \<and> (AllowRequest c \<and> Tickets c = 0 \<longrightarrow>
            ticket s = None \<and> runs s = 0 \<and> ''short-circuit'' \<notin> set (events s)
          \<and> (wpc s = W_Exit \<longrightarrow>
                ''rejected'' \<in> set (events s) \<and> fallbackOnce s = Completed
              \<and> (resolved s = [ErrMaxConcurrency]
                  \<or> (resolved s = [ErrTimeout] \<and> ''timeout'' \<in> set (events s)))))"
proof -
  note i = invariantD[OF invariant_reachable[OF assms]]
  have a: "ticket s = None \<and> runs s = 0 \<and> pool s = Tickets c \<and> ''rejected'' \<notin> set (events s)
          \<and> (wpc s = W_Exit \<longrightarrow>
                (''short-circuit'' \<in> set (events s) \<and> ''timeout'' \<notin> set (events s)
                 \<and> resolved s = [ErrCircuitOpen] \<and> fallbackOnce s = Completed)
              \<or> (''timeout'' \<in> set (events s) \<and> ''short-circuit'' \<notin> set (events s)))"
    if n: "\<not> AllowRequest c"
  proof -
    from i(3) n have t: "ticket s = None" "pool s = Tickets c" by (auto simp: tickets_inv_def)
    from i(4) n have r: "runs s = 0" by (simp add: runs_inv_def)
    from events_rejected(1)[OF i(6)] n have j: "''rejected'' \<notin> set (events s)" by blast
    from events_failure(1)[OF i(6)] n have f: "''failure'' \<notin> set (events s)" by blast
    have e: "(''short-circuit'' \<in> set (events s) \<and> ''timeout'' \<notin> set (events s)
                 \<and> resolved s = [ErrCircuitOpen] \<and> fallbackOnce s = Completed)
              \<or> (''timeout'' \<in> set (events s) \<and> ''short-circuit'' \<notin> set (events s))"
      if w: "wpc s = W_Exit"
    proof (cases "''short-circuit'' \<in> set (events s)")
      case True
      with guard_excl(3)[OF i(2)] have nt: "''timeout'' \<notin> set (events s)" by blast
      from i(12) True w have c: "fallbackOnce s = Completed" by (simp add: resolves_w_def)
      from completed_resolved[OF i(8) c] obtain r' where r': "resolved s = [r']" by blast
      with resolved_origin[OF i(9), of r'] have "origin c (events s) r'" by simp
      with nt j f have "r' = ErrCircuitOpen" by (auto simp: origin_def)
      with True nt r' c show ?thesis by simp
    next
      case False
      with i(7) n w show ?thesis by (simp add: exits_inv_def)
    qed
    from t r j e show ?thesis by blast
  qed
  have b: "ticket s = None \<and> runs s = 0 \<and> ''short-circuit'' \<notin> set (events s)
          \<and> (wpc s = W_Exit \<longrightarrow>
                ''rejected'' \<in> set (events s) \<and> fallbackOnce s = Completed
              \<and> (resolved s = [ErrMaxConcurrency]
                  \<or> (resolved s = [ErrTimeout] \<and> ''timeout'' \<in> set (events s))))"
    if n: "AllowRequest c" "Tickets c = 0"
  proof -
    from i(3) n have t: "ticket s = None" by (simp add: tickets_inv_def)
    from i(4) n have r: "runs s = 0" by (simp add: runs_inv_def)
    from events_short_circuit[OF i(6)] n have j: "''short-circuit'' \<notin> set (events s)" by blast
    from events_failure(2)[OF i(6)] n have f: "''failure'' \<notin> set (events s)" by auto
    have e: "''rejected'' \<in> set (events s) \<and> fallbackOnce s = Completed
              \<and> (resolved s = [ErrMaxConcurrency]
                  \<or> (resolved s = [ErrTimeout] \<and> ''timeout'' \<in> set (events s)))"
      if w: "wpc s = W_Exit"
    proof -
      from i(7) n w have k: "''rejected'' \<in> set (events s)" by (simp add: exits_inv_def)
      with i(12) w have c: "fallbackOnce s = Completed" by (simp add: resolves_w_def)
      from completed_resolved[OF i(8) c] obtain r' where r': "resolved s = [r']" by blast
      with resolved_origin[OF i(9), of r'] have "origin c (events s) r'" by simp
      with j f have "r' = ErrMaxConcurrency \<or> (r' = ErrTimeout \<and> ''timeout'' \<in> set (events s))"
        by (auto simp: origin_def)
      with k c r' show ?thesis by auto
    qed
    from t r j e show ?thesis by blast
  qed
  from a b show ?thesis by blast
qed

theorem worker_admission_witness:
  "GetCircuit call_open_fallback_fails = None \<and> \<not> AllowRequest call_open_fallback_fails
   \<and> (\<exists>s. exec call_open_fallback_fails sched_open (Go call_open_fallback_fails) = Some s
          \<and> wpc s = W_Exit \<and> events s = [''short-circuit'', ''fallback-failure'']
          \<and> ticket s = None \<and> runs s = 0 \<and> resolved s = [ErrCircuitOpen])
   \<and> GetCircuit call_rejected = None \<and> AllowRequest call_rejected \<and> Tickets call_rejected = 0
   \<and> (\<exists>s. exec call_rejected sched_rejected_race (Go call_rejected) = Some s
          \<and> wpc s = W_Exit \<and> events s = [''timeout'', ''rejected'']
          \<and> ticket s = None \<and> runs s = 0 \<and> resolved s = [ErrTimeout])"
proof -
  let ?c = call_open_fallback_fails
  let ?r = "exec ?c sched_open (Go ?c)"
  let ?d = call_rejected
  let ?q = "exec ?d sched_rejected_race (Go ?d)"
  have g: "GetCircuit ?c = None" "\<not> AllowRequest ?c"
    by (simp_all add: call_open_fallback_fails_def)
  have h: "GetCircuit ?d = None" "AllowRequest ?d" "Tickets ?d = 0"
    by (simp_all add: call_rejected_def)
  have e: "map_option wpc ?r = Some W_Exit"
    "map_option events ?r = Some [''short-circuit'', ''fallback-failure'']"
    "map_option wpc ?q = Some W_Exit" "map_option events ?q = Some [''timeout'', ''rejected'']"
    by code_simp+
  have 1: "\<exists>s. ?r = Some s \<and> wpc s = W_Exit \<and> events s = [''short-circuit'', ''fallback-failure'']
          \<and> ticket s = None \<and> runs s = 0 \<and> resolved s = [ErrCircuitOpen]"
  proof (cases ?r)
    case None
    with e show ?thesis by simp
  next
    case (Some s)
    with e have o: "wpc s = W_Exit" "events s = [''short-circuit'', ''fallback-failure'']"
      by simp_all
    from worker_admission[OF g(1) Some] g(2) o
    have "ticket s = None" "runs s = 0" "resolved s = [ErrCircuitOpen]" by simp_all
    with Some o show ?thesis by simp
  qed
  have 2: "\<exists>s. ?q = Some s \<and> wpc s = W_Exit \<and> events s = [''timeout'', ''rejected'']
          \<and> ticket s = None \<and> runs s = 0 \<and> resolved s = [ErrTimeout]"
  proof (cases ?q)
    case None
    with e show ?thesis by simp
  next
    case (Some s)
    with e have o: "wpc s = W_Exit" "events s = [''timeout'', ''rejected'']" by simp_all
    have "map_option resolved ?q = Some [ErrTimeout]" by code_simp
    with Some have v: "resolved s = [ErrTimeout]" by simp
    from worker_admission[OF h(1) Some] h(2,3) o
    have "ticket s = None" "runs s = 0" by simp_all
    with Some o v show ?thesis by simp
  qed
  from g h 1 2 show ?thesis by blast
qed

text \<open>
  C8. The claim: every ticket that is acquired is returned exactly once, also when the
  deadline has passed.  The code: the deadline goroutine calls \<open>executorPool.Return\<close> with
  the value \<open>ticket\<close> has when the goroutine ends; when the timer fires and the goroutine
  ends before the worker reaches the \<open>select\<close> of line 86, that value is \<open>nil\<close>, the
  worker acquires the ticket afterwards, and nothing returns it: at the end of the call the
  ticket is held, \<open>Return\<close> has been called with \<open>nil\<close> only, and the pool of one ticket
  is empty; once the caller has taken the timeout error from \<open>errChan\<close> no step is left.
\<close>

theorem ticket_never_returned:
  "Tickets call_success = 1
   \<and> map_option ticket_account (exec call_success sched_deadline_first (Go call_success))
     = Some (Some (), [None], 0)
   \<and> map_option ended (exec call_success sched_deadline_first (Go call_success)) = Some True
   \<and> map_option ticket_account
        (exec call_success (sched_deadline_first @ [Recv_err]) (Go call_success))
     = Some (Some (), [None], 0)
   \<and> map_option (stuck call_success)
        (exec call_success (sched_deadline_first @ [Recv_err]) (Go call_success))
     = Some True"
  by code_simp

text \<open>
  C9. Along every interleaving of a call whose circuit lookup succeeded:
  \<open>executorPool.Return\<close> has been called exactly once when the deadline goroutine is past
  line 125 (so when it has ended) and not before; the call passes the value the variable
  \<open>ticket\<close> has at that moment; and \<open>ticket\<close> is \<open>nil\<close> unless the worker is past a
  \<open>select\<close> that found a ticket (\<open>w_past_select\<close>: the worker is past line 87), so on the
  short-circuit path, on the rejected path and before the acquisition.  A call that has
  acquired no ticket has passed \<open>nil\<close> only.
\<close>

theorem Return_called_once:
  assumes "GetCircuit c = None" and "exec c sched (Go c) = Some s"
  shows "length (returned s) = (if dpc s = D_UnlockTicket \<or> dpc s = D_Exit then 1 else 0)
       \<and> (dpc s = D_Return \<longrightarrow> map_option returned (step c Deadline s) = Some [ticket s])
       \<and> (ticket s = None) = (\<not> (AllowRequest c \<and> 0 < Tickets c \<and> w_past_select (wpc s)))
       \<and> (ticket s = None \<longrightarrow> set (returned s) \<subseteq> {None})"
proof -
  note i = invariantD[OF invariant_reachable[OF assms]]
  have d: "d_returned (dpc s) = (dpc s = D_UnlockTicket \<or> dpc s = D_Exit)"
    by (cases "dpc s") simp_all
  with i(5) have a: "length (returned s) = (if dpc s = D_UnlockTicket \<or> dpc s = D_Exit then 1 else 0)"
    by (simp add: returned_inv_def)
  have b: "dpc s = D_Return \<longrightarrow> map_option returned (step c Deadline s) = Some [ticket s]"
  proof
    assume r: "dpc s = D_Return"
    with a have "returned s = []" by simp
    with r show "map_option returned (step c Deadline s) = Some [ticket s]"
      by (simp add: Return_def)
  qed
  from i(3) have t: "(ticket s = None) = (\<not> (AllowRequest c \<and> 0 < Tickets c \<and> w_past_select (wpc s)))"
    by (simp add: tickets_inv_def)
  have "x = None" if "ticket s = None" "x \<in> set (returned s)" for x
  proof (cases x)
    case None
    then show ?thesis .
  next
    case (Some u)
    with that i(3) show ?thesis by (simp add: tickets_inv_def)
  qed
  then have "ticket s = None \<longrightarrow> set (returned s) \<subseteq> {None}" by blast
  with a b t show ?thesis by blast
qed

theorem Return_called_once_witness:
  "GetCircuit call_open_fallback_fails = None
   \<and> (\<exists>s. exec call_open_fallback_fails sched_before_Return (Go call_open_fallback_fails) = Some s
          \<and> dpc s = D_Return \<and> ticket s = None \<and> returned s = []
          \<and> map_option returned (step call_open_fallback_fails Deadline s) = Some [None])
   \<and> (\<exists>s. exec call_open_fallback_fails sched_open (Go call_open_fallback_fails) = Some s
          \<and> dpc s = D_Exit \<and> ticket s = None \<and> length (returned s) = 1
          \<and> set (returned s) \<subseteq> {None})"
proof -
  let ?c = call_open_fallback_fails
  let ?r = "exec ?c sched_before_Return (Go ?c)"
  let ?q = "exec ?c sched_open (Go ?c)"
  have g: "GetCircuit ?c = None" by (simp add: call_open_fallback_fails_def)
  have e: "map_option dpc ?r = Some D_Return" "map_option ticket_account ?r = Some (None, [], 1)"
    "map_option dpc ?q = Some D_Exit" "map_option ticket ?q = Some None"
    by code_simp+
  have 1: "\<exists>s. ?r = Some s \<and> dpc s = D_Return \<and> ticket s = None \<and> returned s = []
          \<and> map_option returned (step ?c Deadline s) = Some [None]"
  proof (cases ?r)
    case None
    with e show ?thesis by simp
  next
    case (Some s)
    with e have o: "dpc s = D_Return" "ticket s = None" "returned s = []"
      by (simp_all add: ticket_account_def)
    from Return_called_once[OF g Some] o
    have "map_option returned (step ?c Deadline s) = Some [None]" by (simp del: step.simps)
    with Some o show ?thesis by (simp del: step.simps)
  qed
  have 2: "\<exists>s. ?q = Some s \<and> dpc s = D_Exit \<and> ticket s = None \<and> length (returned s) = 1
          \<and> set (returned s) \<subseteq> {None}"
  proof (cases ?q)
    case None
    with e show ?thesis by simp
  next
    case (Some s)
    with e have o: "dpc s = D_Exit" "ticket s = None" by simp_all
    from Return_called_once[OF g Some] o
    have "length (returned s) = 1" "set (returned s) \<subseteq> {None}" by simp_all
    with Some o show ?thesis by simp
  qed
  from g 1 2 show ?thesis by blast
qed



end
